theory Spec2Isabelle
  imports Complex_Main "HOL-Library.AList"
begin

section \<open>Resources and the resource map (src/utils/resourceMap.ts)\<close>

text \<open>
  A resource is a URI with the five components of RFC 3986. The class comes from the
  vscode-uri package; the map only ever hands it to the injected path normaliser and
  stores it, so its components are plain strings here.
\<close>

record Uri =
  scheme :: string
  authority :: string
  path :: string
  query :: string
  fragment :: string

subsection \<open>JavaScript strings\<close>

text \<open>
  A \<open>string | undefined\<close> is a \<open>string option\<close>. JavaScript's \<open>!key\<close> holds for
  \<open>undefined\<close> and for the empty string.
\<close>

definition falsy :: "string option \<Rightarrow> bool" where
  "falsy key = (case key of None \<Rightarrow> True | Some s \<Rightarrow> s = [])"

text \<open>
  \<open>String.prototype.toLowerCase\<close> folds every cased code point of Unicode. On a string of
  ASCII characters that is the fold of the letters A to Z to a to z, which is written out
  here. On a string with any other character the result depends on the Unicode case
  tables; it is left unspecified (\<open>unicode_toLowerCase\<close> is a function nothing is known
  of), so that whatever is proved below holds of every case mapping that agrees with the
  fold on ASCII strings, the real one among them. A character beyond ASCII is the bytes
  of its encoding, each with the high bit set; the code looks at such characters only
  through \<open>toLowerCase\<close> and through equality of whole keys.
\<close>

definition upperCaseLetters :: string where
  "upperCaseLetters = ''ABCDEFGHIJKLMNOPQRSTUVWXYZ''"

definition lowerCaseLetters :: string where
  "lowerCaseLetters = ''abcdefghijklmnopqrstuvwxyz''"

definition char_toLowerCase :: "char \<Rightarrow> char" where
  "char_toLowerCase c =
     (case map_of (zip upperCaseLetters lowerCaseLetters) c of None \<Rightarrow> c | Some l \<Rightarrow> l)"

definition isAscii :: "char \<Rightarrow> bool" where
  "isAscii c = (\<not> digit7 c)"

definition unicode_toLowerCase :: "string \<Rightarrow> string" where
  "unicode_toLowerCase = undefined"

definition toLowerCase :: "string \<Rightarrow> string" where
  "toLowerCase s = (if list_all isAscii s then map char_toLowerCase s else unicode_toLowerCase s)"

text \<open>The character class \<open>[a-zA-Z]\<close> of the regular expression in \<open>isWindowsPath\<close>.\<close>

definition isAsciiLetter :: "char \<Rightarrow> bool" where
  "isAsciiLetter c = (c \<in> set lowerCaseLetters \<or> c \<in> set upperCaseLetters)"

text \<open>
  \<open>isWindowsPath\<close> tests the path against \<open>^[a-zA-Z]:[/\\]\<close>: a letter, a colon and a
  slash or a backslash, at the start.
\<close>

fun isWindowsPath :: "string \<Rightarrow> bool" where
  "isWindowsPath (c0 # c1 # c2 # rest) =
     (isAsciiLetter c0 \<and> c1 = CHR '':'' \<and> (c2 = CHR ''/'' \<or> c2 = CHR 0x5C))"
| "isWindowsPath s = False"

subsection \<open>The map\<close>

text \<open>
  The private \<open>_map\<close> is a JavaScript \<open>Map\<close> from the key string to an entry object
  \<open>{ resource, value }\<close>. A \<open>Map\<close> iterates in insertion order, \<open>Map.set\<close> on a key that is
  present keeps the key's position and \<open>Map.set\<close> on a new key appends: that is an
  association list with \<open>map_of\<close>, \<open>AList.update\<close> and \<open>AList.delete\<close>.
\<close>

record 'v Entry =
  resource :: Uri
  val :: 'v

record Config =
  onCaseInsensitiveFileSystem :: bool

record 'v ResourceMap =
  normalizePath :: "Uri \<Rightarrow> string option"
  config :: Config
  store :: "(string \<times> 'v Entry) list"

text \<open>The constructor: the normaliser and the configuration are injected, the map is empty.\<close>

definition ResourceMap_new :: "(Uri \<Rightarrow> string option) \<Rightarrow> Config \<Rightarrow> 'v ResourceMap" where
  "ResourceMap_new np cfg = \<lparr>normalizePath = np, config = cfg, store = []\<rparr>"

definition isCaseInsensitivePath :: "'v ResourceMap \<Rightarrow> string \<Rightarrow> bool" where
  "isCaseInsensitivePath m p =
     (if isWindowsPath p then True
      else (case p of [] \<Rightarrow> False | c # cs \<Rightarrow> c = CHR ''/'')
           \<and> onCaseInsensitiveFileSystem (config m))"

text \<open>
  \<open>toKey\<close> returns the normaliser's result unchanged when it is falsy (so the empty
  string comes back as the empty string), and otherwise lower-cases it on a
  case-insensitive path.
\<close>

definition toKey :: "'v ResourceMap \<Rightarrow> Uri \<Rightarrow> string option" where
  "toKey m r =
     (let key = normalizePath m r in
      if falsy key then key
      else map_option (\<lambda>k. if isCaseInsensitivePath m k then toLowerCase k else k) key)"

definition ResourceMap_size :: "'v ResourceMap \<Rightarrow> nat" where
  "ResourceMap_size m = length (store m)"

definition ResourceMap_has :: "'v ResourceMap \<Rightarrow> Uri \<Rightarrow> bool" where
  "ResourceMap_has m r =
     (let file = toKey m r in
      \<not> falsy file \<and> (case file of None \<Rightarrow> False | Some k \<Rightarrow> map_of (store m) k \<noteq> None))"

definition ResourceMap_get :: "'v ResourceMap \<Rightarrow> Uri \<Rightarrow> 'v option" where
  "ResourceMap_get m r =
     (let file = toKey m r in
      if falsy file then None
      else case file of
             None \<Rightarrow> None
           | Some k \<Rightarrow> (case map_of (store m) k of None \<Rightarrow> None | Some entry \<Rightarrow> Some (val entry)))"

text \<open>
  \<open>set\<close>: an entry that is present has its value overwritten in place (its resource and
  its position stay); otherwise a new entry with the given resource is appended.
\<close>

definition ResourceMap_set :: "'v ResourceMap \<Rightarrow> Uri \<Rightarrow> 'v \<Rightarrow> 'v ResourceMap" where
  "ResourceMap_set m r v =
     (let file = toKey m r in
      if falsy file then m
      else case file of
             None \<Rightarrow> m
           | Some k \<Rightarrow>
               (case map_of (store m) k of
                  Some entry \<Rightarrow> m\<lparr>store := AList.update k (entry\<lparr>val := v\<rparr>) (store m)\<rparr>
                | None \<Rightarrow> m\<lparr>store := AList.update k \<lparr>resource = r, val = v\<rparr> (store m)\<rparr>))"

definition ResourceMap_delete :: "'v ResourceMap \<Rightarrow> Uri \<Rightarrow> 'v ResourceMap" where
  "ResourceMap_delete m r =
     (let file = toKey m r in
      if \<not> falsy file
      then (case file of None \<Rightarrow> m | Some k \<Rightarrow> m\<lparr>store := AList.delete k (store m)\<rparr>)
      else m)"

definition ResourceMap_clear :: "'v ResourceMap \<Rightarrow> 'v ResourceMap" where
  "ResourceMap_clear m = m\<lparr>store := []\<rparr>"

definition ResourceMap_values :: "'v ResourceMap \<Rightarrow> 'v list" where
  "ResourceMap_values m = map (\<lambda>x. val (snd x)) (store m)"

definition ResourceMap_entries :: "'v ResourceMap \<Rightarrow> 'v Entry list" where
  "ResourceMap_entries m = map snd (store m)"

text \<open>
  A run of the mutating operations on a map, used to speak about every state a map can
  reach from its construction.
\<close>

datatype 'v ResourceMapOp = OpSet Uri 'v | OpDelete Uri | OpClear

fun ResourceMap_apply :: "'v ResourceMap \<Rightarrow> 'v ResourceMapOp \<Rightarrow> 'v ResourceMap" where
  "ResourceMap_apply m (OpSet r v) = ResourceMap_set m r v"
| "ResourceMap_apply m (OpDelete r) = ResourceMap_delete m r"
| "ResourceMap_apply m OpClear = ResourceMap_clear m"

definition ResourceMap_run :: "'v ResourceMap \<Rightarrow> 'v ResourceMapOp list \<Rightarrow> 'v ResourceMap" where
  "ResourceMap_run m ops = foldl ResourceMap_apply m ops"

text \<open>A resource the map can file: the normaliser gives it a key that is not empty.\<close>

definition resolvable :: "'v ResourceMap \<Rightarrow> Uri \<Rightarrow> bool" where
  "resolvable m u = (\<exists>k. toKey m u = Some k \<and> k \<noteq> [])"

text \<open>
  What a \<open>Map\<close> keyed by \<open>toKey\<close> guarantees of the store: no key twice, no empty key,
  and every entry filed under the key of its own resource.
\<close>

definition ResourceMap_wf :: "'v ResourceMap \<Rightarrow> bool" where
  "ResourceMap_wf m =
     (distinct (map fst (store m))
      \<and> (\<forall>x \<in> set (store m). fst x \<noteq> [] \<and> toKey m (resource (snd x)) = Some (fst x)))"

section \<open>The TS server client, as the synchronizer sees it\<close>

text \<open>
  The client is an external collaborator. Its version class (utils/api.ts), its
  capability enumeration (typescriptService.ts) and the protocol's argument shapes
  (ts-protocol.ts) are not among the files verified here; they are modelled by the little
  the buffer synchronisation reads from them.
\<close>

text \<open>
  Modelled from the spec: the \<open>API\<close> version class of utils/api.ts, an orderable version
  with the constants v3.4.0 and v4.4.0. A version is (major, minor, patch), ordered
  lexicographically.
\<close>

type_synonym API = "nat \<times> nat \<times> nat"

definition API_gte :: "API \<Rightarrow> API \<Rightarrow> bool" where
  "API_gte a b =
     (case a of (a1, a2, a3) \<Rightarrow> case b of (b1, b2, b3) \<Rightarrow>
        b1 < a1 \<or> (a1 = b1 \<and> (b2 < a2 \<or> (a2 = b2 \<and> b3 \<le> a3))))"

definition API_v340 :: API where
  "API_v340 = (3, 4, 0)"

definition API_v440 :: API where
  "API_v440 = (4, 4, 0)"

datatype ClientCapability = Syntax | EnhancedSyntax | Semantic

datatype ScriptKindName = TS | TSX | JS | JSX

record OpenRequestArgs =
  open_file :: string
  fileContent :: string
  projectRootPath :: "string option"
  scriptKindName :: "ScriptKindName option"

text \<open>A back-end location: line and offset, both 1-based.\<close>

record Location =
  line :: nat
  offset :: nat

record CodeEdit =
  start_loc :: Location
  end_loc :: Location
  newText :: string

record FileCodeEdits =
  fileName :: string
  textChanges :: "CodeEdit list"

record UpdateOpenRequestArgs =
  changedFiles :: "FileCodeEdits list"
  closedFiles :: "string list"
  openFiles :: "OpenRequestArgs list"

record ChangeRequestArgs =
  insertString :: string
  change_file :: string
  change_line :: nat
  change_offset :: nat
  change_endLine :: nat
  change_endOffset :: nat

text \<open>The commands the code hands to the client, with their arguments.\<close>

datatype Command =
    Cmd_Open OpenRequestArgs
  | Cmd_Close string
  | Cmd_Change ChangeRequestArgs
  | Cmd_UpdateOpen UpdateOpenRequestArgs
  | Cmd_Geterr "string list"
  | Cmd_GeterrForProject string

text \<open>
  The client's state is the list of commands it has been handed, oldest first;
  everything else the code reads from it is fixed.
\<close>

record Client =
  apiVersion :: API
  capabilities :: "ClientCapability list"
  enableProjectDiagnostics :: bool
  toTsFilePath :: "Uri \<Rightarrow> string option"
  hasCapabilityForResource :: "Uri \<Rightarrow> ClientCapability \<Rightarrow> bool"
  getWorkspaceRootForResource :: "Uri \<Rightarrow> string option"
  executed :: "Command list"

text \<open>
  \<open>execute\<close>, \<open>executeWithoutWaitingForResponse\<close> and \<open>executeAsync\<close> all hand one command
  to the transport; they differ in what the caller waits for.
\<close>

definition Client_execute :: "Client \<Rightarrow> Command \<Rightarrow> Client" where
  "Client_execute c cmd = c\<lparr>executed := executed c @ [cmd]\<rparr>"

section \<open>LSP documents and content changes\<close>

record Position =
  pos_line :: nat
  pos_character :: nat

record Range =
  range_start :: Position
  range_end :: Position

text \<open>
  A content change event is \<open>{ range, text }\<close> or, for a full-document change,
  \<open>{ text }\<close>: \<open>'range' in change\<close> is \<open>change_range \<noteq> None\<close>.
\<close>

record TextDocumentContentChangeEvent =
  change_range :: "Range option"
  change_text :: string

text \<open>
  Modelled from the spec: \<open>typeConverters.Position.toLocation\<close> (utils/typeConverters.ts),
  which turns a 0-based LSP position into the back-end's 1-based line and offset.
\<close>

definition Position_toLocation :: "Position \<Rightarrow> Location" where
  "Position_toLocation p = \<lparr>line = pos_line p + 1, offset = pos_character p + 1\<rparr>"

text \<open>
  Modelled from the spec: \<open>typeConverters.Range.toFormattingRequestArgs\<close>
  (utils/typeConverters.ts), the same 1-based translation for both ends of a range.
\<close>

definition Range_toFormattingRequestArgs :: "string \<Rightarrow> Range \<Rightarrow> string \<Rightarrow> ChangeRequestArgs" where
  "Range_toFormattingRequestArgs f r ins =
     \<lparr>insertString = ins, change_file = f,
      change_line = pos_line (range_start r) + 1,
      change_offset = pos_character (range_start r) + 1,
      change_endLine = pos_line (range_end r) + 1,
      change_endOffset = pos_character (range_end r) + 1\<rparr>"

text \<open>
  The document's \<open>uri\<close> is held in parsed form: the code calls \<open>Uri.parse\<close> of vscode-uri
  on it at every access.
\<close>

record TextDocument =
  uri :: Uri
  languageId :: string
  lineCount :: nat
  getText :: string

text \<open>The language identifiers of utils/languageIds.ts.\<close>

definition languageModeIds_typescript :: string where
  "languageModeIds_typescript = ''typescript''"

definition languageModeIds_typescriptreact :: string where
  "languageModeIds_typescriptreact = ''typescriptreact''"

definition languageModeIds_javascript :: string where
  "languageModeIds_javascript = ''javascript''"

definition languageModeIds_javascriptreact :: string where
  "languageModeIds_javascriptreact = ''javascriptreact''"

section \<open>The buffer synchronizer (src/tsServer/bufferSyncSupport.ts)\<close>

datatype BufferKind = TypeScript | JavaScript

text \<open>
  \<open>const enum BufferState { Initial = 1, Open = 2, Closed = 2 }\<close>: a state is its numeric
  tag, and the comparisons of the code compare tags.
\<close>

type_synonym BufferState = nat

definition BufferState_Initial :: BufferState where
  "BufferState_Initial = 1"

definition BufferState_Open :: BufferState where
  "BufferState_Open = 2"

definition BufferState_Closed :: BufferState where
  "BufferState_Closed = 2"

definition mode2ScriptKind :: "string \<Rightarrow> ScriptKindName option" where
  "mode2ScriptKind mode =
     (if mode = languageModeIds_typescript then Some TS
      else if mode = languageModeIds_typescriptreact then Some TSX
      else if mode = languageModeIds_javascript then Some JS
      else if mode = languageModeIds_javascriptreact then Some JSX
      else None)"

datatype BufferOperation =
    CloseOperation string
  | OpenOperation OpenRequestArgs
  | ChangeOperation FileCodeEdits

record BufferSynchronizer =
  client :: Client
  pending :: "BufferOperation ResourceMap"

definition BufferSynchronizer_new ::
  "Client \<Rightarrow> (Uri \<Rightarrow> string option) \<Rightarrow> bool \<Rightarrow> BufferSynchronizer" where
  "BufferSynchronizer_new c pathNormalizer ci =
     \<lparr>client = c,
      pending = ResourceMap_new pathNormalizer \<lparr>onCaseInsensitiveFileSystem = ci\<rparr>\<rparr>"

definition supportsBatching :: "BufferSynchronizer \<Rightarrow> bool" where
  "supportsBatching s = API_gte (apiVersion (client s)) API_v340"

text \<open>One round of the loop of \<open>flush\<close>: the operation's arguments go to the end of its list.\<close>

fun flush_push :: "UpdateOpenRequestArgs \<Rightarrow> BufferOperation \<Rightarrow> UpdateOpenRequestArgs" where
  "flush_push args (ChangeOperation a) = args\<lparr>changedFiles := changedFiles args @ [a]\<rparr>"
| "flush_push args (OpenOperation a) = args\<lparr>openFiles := openFiles args @ [a]\<rparr>"
| "flush_push args (CloseOperation a) = args\<lparr>closedFiles := closedFiles args @ [a]\<rparr>"

definition flush_args :: "BufferOperation list \<Rightarrow> UpdateOpenRequestArgs" where
  "flush_args ops = foldl flush_push \<lparr>changedFiles = [], closedFiles = [], openFiles = []\<rparr> ops"

text \<open>
  What a call can throw. A JavaScript exception leaves the function at once; every throw
  of the synchronizer happens before it has changed anything, so a thrown call is the
  error alone and the state is the caller's.
\<close>

datatype JSError = ReferenceError string

text \<open>
  \<open>flush\<close>. With batching and a non-empty map the loop fills the three lists, and then the
  arguments of \<open>this.client.execute(CommandTypes.UpdateOpen, {...}, nulToken, {...})\<close> are
  evaluated from left to right. The import of \<open>nulToken\<close> is commented out at the head of
  the file and nothing else binds the name, so evaluating the third argument throws a
  \<open>ReferenceError\<close>: the command is not sent and the map is not cleared.
\<close>

definition flush :: "BufferSynchronizer \<Rightarrow> JSError + BufferSynchronizer" where
  "flush s =
     (if \<not> supportsBatching s then Inr (s\<lparr>pending := ResourceMap_clear (pending s)\<rparr>)
      else if 0 < ResourceMap_size (pending s)
      then (let args = flush_args (ResourceMap_values (pending s))
            in Inl (ReferenceError ''nulToken''))
      else Inr s)"

text \<open>
  \<open>updatePending\<close>: a Close that meets a pending Open deletes it and returns false;
  everything else flushes first when the resource has a pending operation, then stores
  and returns true.
\<close>

definition updatePending ::
  "BufferSynchronizer \<Rightarrow> Uri \<Rightarrow> BufferOperation \<Rightarrow> JSError + bool \<times> BufferSynchronizer" where
  "updatePending s r op =
     (if (case op of CloseOperation a \<Rightarrow>
            (case ResourceMap_get (pending s) r of Some (OpenOperation b) \<Rightarrow> True | _ \<Rightarrow> False)
          | _ \<Rightarrow> False)
      then Inr (False, s\<lparr>pending := ResourceMap_delete (pending s) r\<rparr>)
      else case (if ResourceMap_has (pending s) r then flush s else Inr s) of
             Inl e \<Rightarrow> Inl e
           | Inr s1 \<Rightarrow> Inr (True, s1\<lparr>pending := ResourceMap_set (pending s1) r op\<rparr>))"

definition BufferSynchronizer_open ::
  "BufferSynchronizer \<Rightarrow> Uri \<Rightarrow> OpenRequestArgs \<Rightarrow> JSError + BufferSynchronizer" where
  "BufferSynchronizer_open s r args =
     (if supportsBatching s
      then (case updatePending s r (OpenOperation args) of
              Inl e \<Rightarrow> Inl e
            | Inr res \<Rightarrow> Inr (snd res))
      else Inr (s\<lparr>client := Client_execute (client s) (Cmd_Open args)\<rparr>))"

definition BufferSynchronizer_close ::
  "BufferSynchronizer \<Rightarrow> Uri \<Rightarrow> string \<Rightarrow> JSError + bool \<times> BufferSynchronizer" where
  "BufferSynchronizer_close s r fp =
     (if supportsBatching s then updatePending s r (CloseOperation fp)
      else Inr (True, s\<lparr>client := Client_execute (client s) (Cmd_Close fp)\<rparr>))"

text \<open>The first loop of \<open>change\<close>: an event without a range is skipped, the others become edits.\<close>

fun change_edits :: "TextDocumentContentChangeEvent list \<Rightarrow> CodeEdit list" where
  "change_edits [] = []"
| "change_edits (e # es) =
     (case change_range e of
        None \<Rightarrow> change_edits es
      | Some r \<Rightarrow>
          \<lparr>start_loc = Position_toLocation (range_start r),
           end_loc = Position_toLocation (range_end r),
           newText = change_text e\<rparr> # change_edits es)"

text \<open>The second loop of \<open>change\<close>: one Change command per event with a range.\<close>

fun change_send :: "Client \<Rightarrow> string \<Rightarrow> TextDocumentContentChangeEvent list \<Rightarrow> Client" where
  "change_send c fp [] = c"
| "change_send c fp (e # es) =
     (case change_range e of
        None \<Rightarrow> change_send c fp es
      | Some r \<Rightarrow>
          change_send
            (Client_execute c (Cmd_Change (Range_toFormattingRequestArgs fp r (change_text e))))
            fp es)"

definition BufferSynchronizer_change ::
  "BufferSynchronizer \<Rightarrow> Uri \<Rightarrow> string \<Rightarrow> TextDocumentContentChangeEvent list
     \<Rightarrow> JSError + BufferSynchronizer" where
  "BufferSynchronizer_change s r fp events =
     (if events = [] then Inr s
      else if supportsBatching s
      then (case updatePending s r
                   (ChangeOperation \<lparr>fileName = fp, textChanges = rev (change_edits events)\<rparr>) of
              Inl e \<Rightarrow> Inl e
            | Inr res \<Rightarrow> Inr (snd res))
      else Inr (s\<lparr>client := change_send (client s) fp events\<rparr>))"

definition BufferSynchronizer_reset :: "BufferSynchronizer \<Rightarrow> BufferSynchronizer" where
  "BufferSynchronizer_reset s = s\<lparr>pending := ResourceMap_clear (pending s)\<rparr>"

definition beforeCommand :: "BufferSynchronizer \<Rightarrow> string \<Rightarrow> JSError + BufferSynchronizer" where
  "beforeCommand s command = (if command = ''updateOpen'' then Inr s else flush s)"

section \<open>Synced buffers\<close>

text \<open>
  A buffer holds references to the client and to the synchronizer; both are shared with
  the orchestrator, so the operations take the synchronizer (which owns the client's
  state) and return it updated. A buffer operation returns its outcome, a value or the
  error thrown, together with the buffer and the synchronizer as the call leaves them.
\<close>

record SyncedBuffer =
  document :: TextDocument
  filepath :: string
  state :: BufferState

definition SyncedBuffer_new :: "TextDocument \<Rightarrow> string \<Rightarrow> SyncedBuffer" where
  "SyncedBuffer_new doc fp = \<lparr>document = doc, filepath = fp, state = BufferState_Initial\<rparr>"

definition buffer_resource :: "SyncedBuffer \<Rightarrow> Uri" where
  "buffer_resource b = uri (document b)"

definition buffer_lineCount :: "SyncedBuffer \<Rightarrow> nat" where
  "buffer_lineCount b = lineCount (document b)"

definition kind :: "SyncedBuffer \<Rightarrow> BufferKind" where
  "kind b =
     (if languageId (document b) = languageModeIds_javascript
         \<or> languageId (document b) = languageModeIds_javascriptreact
      then JavaScript
      else TypeScript)"

text \<open>\<open>open\<close> sets the state after the synchronizer's \<open>open\<close> has returned.\<close>

definition SyncedBuffer_open ::
  "SyncedBuffer \<Rightarrow> BufferSynchronizer \<Rightarrow> JSError option \<times> SyncedBuffer \<times> BufferSynchronizer" where
  "SyncedBuffer_open b s =
     (let args = \<lparr>open_file = filepath b,
                  fileContent = getText (document b),
                  projectRootPath = getWorkspaceRootForResource (client s) (uri (document b)),
                  scriptKindName = mode2ScriptKind (languageId (document b))\<rparr>
      in case BufferSynchronizer_open s (buffer_resource b) args of
           Inl e \<Rightarrow> (Some e, b, s)
         | Inr s' \<Rightarrow> (None, b\<lparr>state := BufferState_Open\<rparr>, s'))"

text \<open>
  \<open>close\<close> returns whether the buffer was open. It sets the state before it calls the
  synchronizer's \<open>close\<close>, so the buffer is Closed also when that call throws.
\<close>

definition SyncedBuffer_close ::
  "SyncedBuffer \<Rightarrow> BufferSynchronizer \<Rightarrow> (JSError + bool) \<times> SyncedBuffer \<times> BufferSynchronizer" where
  "SyncedBuffer_close b s =
     (if state b \<noteq> BufferState_Open then (Inr False, b\<lparr>state := BufferState_Closed\<rparr>, s)
      else case BufferSynchronizer_close s (buffer_resource b) (filepath b) of
             Inl e \<Rightarrow> (Inl e, b\<lparr>state := BufferState_Closed\<rparr>, s)
           | Inr res \<Rightarrow> (Inr (fst res), b\<lparr>state := BufferState_Closed\<rparr>, snd res))"

text \<open>\<open>onContentChanged\<close> logs an error outside the Open state and forwards the events in any case.\<close>

definition onContentChanged ::
  "SyncedBuffer \<Rightarrow> BufferSynchronizer \<Rightarrow> TextDocumentContentChangeEvent list
     \<Rightarrow> JSError + BufferSynchronizer" where
  "onContentChanged b s events = BufferSynchronizer_change s (buffer_resource b) (filepath b) events"

section \<open>Pending diagnostics\<close>

text \<open>
  \<open>PendingDiagnostics\<close> is a \<open>ResourceMap<number>\<close> of enqueue times (\<open>Date.now()\<close>, whole
  milliseconds). \<open>Array.prototype.sort\<close> is stable, and so is \<open>sort_key\<close>.
\<close>

type_synonym PendingDiagnostics = "int ResourceMap"

definition getOrderedFileSet :: "PendingDiagnostics \<Rightarrow> unit ResourceMap" where
  "getOrderedFileSet p =
     (let orderedResources = map resource (sort_key val (ResourceMap_entries p))
      in foldl (\<lambda>m r. ResourceMap_set m r ())
               (ResourceMap_new (normalizePath p) (config p)) orderedResources)"

section \<open>The get-error request\<close>

text \<open>
  The request's own fields are \<open>files\<close>, \<open>_done\<close> and the cancellation token source. What
  the constructor leaves with the event loop is part of the state as well: whether
  \<open>onDone\<close> sits in the \<open>setImmediate\<close> queue, and whether a back-end request with the
  \<open>finally\<close> callback attached was issued. \<open>onDoneCalls\<close> counts the calls of \<open>onDone\<close>.
\<close>

record GetErrRequest =
  files :: "unit ResourceMap"
  done_flag :: bool
  token_cancelled :: bool
  token_disposed :: bool
  immediate_queued :: bool
  request_issued :: bool
  onDoneCalls :: nat

definition isErrorReportingEnabled :: "Client \<Rightarrow> bool" where
  "isErrorReportingEnabled c =
     (if API_gte (apiVersion c) API_v440 then True else Semantic \<in> set (capabilities c))"

definition areProjectDiagnosticsEnabled :: "Client \<Rightarrow> bool" where
  "areProjectDiagnosticsEnabled c =
     (enableProjectDiagnostics c \<and> Semantic \<in> set (capabilities c))"

text \<open>
  Modelled from the spec: \<open>coalesce\<close> of utils/arrays.ts, which drops the nones of a list.
\<close>

fun coalesce :: "'a option list \<Rightarrow> 'a list" where
  "coalesce [] = []"
| "coalesce (None # xs) = coalesce xs"
| "coalesce (Some x # xs) = x # coalesce xs"

definition GetErrRequest_init :: "unit ResourceMap \<Rightarrow> GetErrRequest" where
  "GetErrRequest_init fs =
     \<lparr>files = fs, done_flag = False, token_cancelled = False, token_disposed = False,
      immediate_queued = False, request_issued = False, onDoneCalls = 0\<rparr>"

definition getErr_allFiles :: "Client \<Rightarrow> unit ResourceMap \<Rightarrow> string list" where
  "getErr_allFiles c fs =
     (let supportsSyntaxGetErr = API_gte (apiVersion c) API_v440
      in coalesce
           (map (\<lambda>entry. toTsFilePath c (resource entry))
              (filter (\<lambda>entry. supportsSyntaxGetErr
                                \<or> hasCapabilityForResource c (resource entry) Semantic)
                 (ResourceMap_entries fs))))"

text \<open>The constructor, with the client it has handed its command to.\<close>

definition executeGetErrRequest :: "Client \<Rightarrow> unit ResourceMap \<Rightarrow> GetErrRequest \<times> Client" where
  "executeGetErrRequest c fs =
     (if \<not> isErrorReportingEnabled c
      then ((GetErrRequest_init fs)\<lparr>done_flag := True, immediate_queued := True\<rparr>, c)
      else case getErr_allFiles c fs of
             [] \<Rightarrow> ((GetErrRequest_init fs)\<lparr>done_flag := True, immediate_queued := True\<rparr>, c)
           | f # rest \<Rightarrow>
               ((GetErrRequest_init fs)\<lparr>request_issued := True\<rparr>,
                Client_execute c
                  (if areProjectDiagnosticsEnabled c then Cmd_GeterrForProject f
                   else Cmd_Geterr (f # rest))))"

definition GetErrRequest_cancel :: "GetErrRequest \<Rightarrow> GetErrRequest" where
  "GetErrRequest_cancel g =
     (let g1 = (if \<not> done_flag g then g\<lparr>token_cancelled := True\<rparr> else g)
      in g1\<lparr>token_disposed := True\<rparr>)"

text \<open>
  What can happen to a request after its construction: the event loop runs the queued
  \<open>setImmediate\<close> callback (once: it leaves the queue), the back-end request settles, by
  success, failure or cancellation, and the \<open>finally\<close> callback runs, or the owner calls
  \<open>cancel\<close>. The settle event is allowed to repeat; a promise settles once, so this
  includes every real run.
\<close>

datatype GetErrEvent = RunImmediate | RequestSettled | Cancel

fun GetErrRequest_step :: "GetErrRequest \<Rightarrow> GetErrEvent \<Rightarrow> GetErrRequest" where
  "GetErrRequest_step g RunImmediate =
     (if immediate_queued g
      then g\<lparr>immediate_queued := False, onDoneCalls := onDoneCalls g + 1\<rparr>
      else g)"
| "GetErrRequest_step g RequestSettled =
     (if request_issued g
      then (if done_flag g then g else g\<lparr>done_flag := True, onDoneCalls := onDoneCalls g + 1\<rparr>)
      else g)"
| "GetErrRequest_step g Cancel = GetErrRequest_cancel g"

definition GetErrRequest_run :: "GetErrRequest \<Rightarrow> GetErrEvent list \<Rightarrow> GetErrRequest" where
  "GetErrRequest_run g evs = foldl GetErrRequest_step g evs"

text \<open>The event that completes a request: the queued callback, or the settling of its request.\<close>

definition completion :: "GetErrRequest \<Rightarrow> GetErrEvent" where
  "completion g = (if immediate_queued g then RunImmediate else RequestSettled)"

section \<open>The tab resource tracker\<close>

text \<open>
  A tab is an editor object, used as an identity key only: here its identity and its
  input. A \<open>Set<Tab>\<close> iterates in insertion order and holds no tab twice.
\<close>

datatype TabInput =
    TabInputText Uri
  | TabInputTextDiff Uri Uri
  | TabInputNotebook Uri
  | TabInputOther

record Tab =
  tab_id :: nat
  input :: TabInput

record TabEntry =
  tabs :: "Tab list"

definition Set_add :: "'a \<Rightarrow> 'a list \<Rightarrow> 'a list" where
  "Set_add x xs = (if x \<in> set xs then xs else xs @ [x])"

definition Set_delete :: "'a \<Rightarrow> 'a list \<Rightarrow> 'a list" where
  "Set_delete x xs = removeAll x xs"

record TabResourceTracker =
  tabResources :: "TabEntry ResourceMap"

definition TabResourceTracker_new :: "(Uri \<Rightarrow> string option) \<Rightarrow> Config \<Rightarrow> TabResourceTracker" where
  "TabResourceTracker_new np cfg = \<lparr>tabResources = ResourceMap_new np cfg\<rparr>"

fun getResourcesForTab :: "Tab \<Rightarrow> Uri list" where
  "getResourcesForTab tab =
     (case input tab of
        TabInputText u \<Rightarrow> [u]
      | TabInputTextDiff original modified \<Rightarrow> [original, modified]
      | TabInputNotebook u \<Rightarrow> [u]
      | TabInputOther \<Rightarrow> [])"

definition TabResourceTracker_has :: "TabResourceTracker \<Rightarrow> Uri \<Rightarrow> bool" where
  "TabResourceTracker_has t r =
     (case ResourceMap_get (tabResources t) r of
        None \<Rightarrow> False
      | Some entry \<Rightarrow> 0 < length (tabs entry))"

text \<open>
  One round of the loop of \<open>add\<close>, on the tracker and the list of added resources. The code
  adds the tab to the entry's set through the reference it got from the map; the map then
  holds the same resource with the larger set, which is what overwriting the value gives.
\<close>

definition add_step :: "Tab \<Rightarrow> TabResourceTracker \<times> Uri list \<Rightarrow> Uri \<Rightarrow> TabResourceTracker \<times> Uri list" where
  "add_step tab acc u =
     (case acc of (t, addedResources) \<Rightarrow>
        (case ResourceMap_get (tabResources t) u of
           Some entry \<Rightarrow>
             (t\<lparr>tabResources :=
                  ResourceMap_set (tabResources t) u (entry\<lparr>tabs := Set_add tab (tabs entry)\<rparr>)\<rparr>,
              addedResources)
         | None \<Rightarrow>
             (t\<lparr>tabResources := ResourceMap_set (tabResources t) u \<lparr>tabs = [tab]\<rparr>\<rparr>,
              addedResources @ [u])))"

definition TabResourceTracker_add :: "TabResourceTracker \<Rightarrow> Tab \<Rightarrow> TabResourceTracker \<times> Uri list" where
  "TabResourceTracker_add t tab = foldl (add_step tab) (t, []) (getResourcesForTab tab)"

text \<open>One round of the loop of \<open>delete\<close>.\<close>

definition delete_step :: "Tab \<Rightarrow> TabResourceTracker \<times> Uri list \<Rightarrow> Uri \<Rightarrow> TabResourceTracker \<times> Uri list" where
  "delete_step tab acc u =
     (case acc of (t, closedResources) \<Rightarrow>
        (case ResourceMap_get (tabResources t) u of
           None \<Rightarrow> (t, closedResources)
         | Some entry \<Rightarrow>
             (let remaining = Set_delete tab (tabs entry);
                  m1 = ResourceMap_set (tabResources t) u (entry\<lparr>tabs := remaining\<rparr>)
              in if length remaining = 0
                 then (t\<lparr>tabResources := ResourceMap_delete m1 u\<rparr>, closedResources @ [u])
                 else (t\<lparr>tabResources := m1\<rparr>, closedResources))))"

definition TabResourceTracker_delete :: "TabResourceTracker \<Rightarrow> Tab \<Rightarrow> TabResourceTracker \<times> Uri list" where
  "TabResourceTracker_delete t tab = foldl (delete_step tab) (t, []) (getResourcesForTab tab)"

text \<open>A run of \<open>add\<close> and \<open>delete\<close> calls, from the constructor's loop and the tab events.\<close>

datatype TabOp = AddTab Tab | DeleteTab Tab

fun TabResourceTracker_apply :: "TabResourceTracker \<Rightarrow> TabOp \<Rightarrow> TabResourceTracker" where
  "TabResourceTracker_apply t (AddTab tab) = fst (TabResourceTracker_add t tab)"
| "TabResourceTracker_apply t (DeleteTab tab) = fst (TabResourceTracker_delete t tab)"

definition TabResourceTracker_run :: "TabResourceTracker \<Rightarrow> TabOp list \<Rightarrow> TabResourceTracker" where
  "TabResourceTracker_run t ops = foldl TabResourceTracker_apply t ops"

text \<open>Every resource the tracker holds has at least one tab.\<close>

definition TabResourceTracker_inv :: "TabResourceTracker \<Rightarrow> bool" where
  "TabResourceTracker_inv t = (\<forall>x \<in> set (store (tabResources t)). tabs (val (snd x)) \<noteq> [])"

section \<open>The orchestrator\<close>

text \<open>
  Modelled from the spec: the \<open>Delayer\<close> of utils/async.ts. \<open>trigger(action, delay)\<close>
  schedules the action after the delay, replacing what was scheduled. The only action the
  orchestrator ever schedules is \<open>sendPendingDiagnostics\<close>, so the state is the delay of
  the scheduled firing, if any.
\<close>

record Delayer =
  defaultDelay :: nat
  scheduled :: "nat option"

definition Delayer_trigger :: "Delayer \<Rightarrow> nat \<Rightarrow> Delayer" where
  "Delayer_trigger d delay = d\<lparr>scheduled := Some delay\<rparr>"

text \<open>The fields of \<open>BufferSyncSupport\<close> that scheduling a diagnostic reads and writes.\<close>

record BufferSyncSupport =
  sync_client :: Client
  validateJavaScript :: bool
  validateTypeScript :: bool
  pendingDiagnostics :: PendingDiagnostics
  diagnosticDelayer :: Delayer
  tabResourceTracker :: TabResourceTracker

definition shouldValidate :: "BufferSyncSupport \<Rightarrow> SyncedBuffer \<Rightarrow> bool" where
  "shouldValidate s b =
     (if \<not> enableProjectDiagnostics (sync_client s)
         \<and> \<not> TabResourceTracker_has (tabResourceTracker s) (buffer_resource b)
      then False
      else case kind b of
             JavaScript \<Rightarrow> validateJavaScript s
           | TypeScript \<Rightarrow> validateTypeScript s)"

definition triggerDiagnostics :: "BufferSyncSupport \<Rightarrow> nat \<Rightarrow> BufferSyncSupport" where
  "triggerDiagnostics s delay = s\<lparr>diagnosticDelayer := Delayer_trigger (diagnosticDelayer s) delay\<rparr>"

text \<open>
  \<open>Math.min(Math.max(Math.ceil(lineCount / 20), 300), 800)\<close>: the line count is a whole
  number, the quotient is taken in the reals.
\<close>

definition diagnosticDelay :: "nat \<Rightarrow> nat" where
  "diagnosticDelay n = min (max (nat \<lceil>real n / 20\<rceil>) 300) 800"

text \<open>\<open>requestDiagnostic\<close>, at the time \<open>now\<close> that \<open>Date.now()\<close> returns.\<close>

definition requestDiagnostic ::
  "BufferSyncSupport \<Rightarrow> int \<Rightarrow> SyncedBuffer \<Rightarrow> bool \<times> BufferSyncSupport" where
  "requestDiagnostic s now b =
     (if \<not> shouldValidate s b then (False, s)
      else let s1 = s\<lparr>pendingDiagnostics :=
                        ResourceMap_set (pendingDiagnostics s) (buffer_resource b) now\<rparr>;
               delay = diagnosticDelay (buffer_lineCount b)
           in (True, triggerDiagnostics s1 delay))"

section \<open>Fixtures for the worked examples\<close>

definition fileUri :: "string \<Rightarrow> Uri" where
  "fileUri p = \<lparr>scheme = ''file'', authority = [], path = p, query = [], fragment = []\<rparr>"

definition untitledUri :: "string \<Rightarrow> Uri" where
  "untitledUri p = \<lparr>scheme = ''untitled'', authority = [], path = p, query = [], fragment = []\<rparr>"

text \<open>
  A path normaliser for the examples: the file system path of a file URI (a drive-letter
  path loses its leading slash), and none for a URI of any other scheme.
\<close>

definition examplePathNormalizer :: "Uri \<Rightarrow> string option" where
  "examplePathNormalizer u =
     (if scheme u = ''file''
      then Some (case path u of
                   [] \<Rightarrow> []
                 | c # cs \<Rightarrow> if c = CHR ''/'' \<and> isWindowsPath cs then cs else c # cs)
      else None)"

definition exampleClient :: "API \<Rightarrow> bool \<Rightarrow> Client" where
  "exampleClient api projectDiagnostics =
     \<lparr>apiVersion = api, capabilities = [Semantic],
      enableProjectDiagnostics = projectDiagnostics,
      toTsFilePath = examplePathNormalizer,
      hasCapabilityForResource = (\<lambda>u c. True),
      getWorkspaceRootForResource = (\<lambda>u. None),
      executed = []\<rparr>"

definition exampleDocument :: "string \<Rightarrow> string \<Rightarrow> nat \<Rightarrow> TextDocument" where
  "exampleDocument p lang n = \<lparr>uri = fileUri p, languageId = lang, lineCount = n, getText = []\<rparr>"

definition exampleSynchronizer :: "API \<Rightarrow> BufferSynchronizer" where
  "exampleSynchronizer api =
     BufferSynchronizer_new (exampleClient api False) examplePathNormalizer False"

section \<open>Properties of the resource map\<close>

lemmas rm_defs = ResourceMap_new_def ResourceMap_has_def ResourceMap_get_def ResourceMap_set_def
  ResourceMap_delete_def ResourceMap_clear_def ResourceMap_size_def ResourceMap_values_def
  ResourceMap_entries_def

lemmas key_defs = toKey_def falsy_def isCaseInsensitivePath_def

lemmas fixture_defs = fileUri_def untitledUri_def examplePathNormalizer_def exampleClient_def
  exampleDocument_def exampleSynchronizer_def

subsection \<open>Keys\<close>

lemmas string_defs = toLowerCase_def isAscii_def char_toLowerCase_def upperCaseLetters_def
  lowerCaseLetters_def isAsciiLetter_def

text \<open>The fold on the whole alphabet, and on what is not a letter.\<close>

lemma toLowerCase_alphabet:
  "toLowerCase ''ABCDEFGHIJKLMNOPQRSTUVWXYZ'' = ''abcdefghijklmnopqrstuvwxyz''"
  "toLowerCase ''abcdefghijklmnopqrstuvwxyz'' = ''abcdefghijklmnopqrstuvwxyz''"
  "toLowerCase ''0123456789 :/._-@[{'' = ''0123456789 :/._-@[{''"
  by (simp_all add: string_defs)

lemma toKey_of_empty: "normalizePath m r = Some [] \<Longrightarrow> toKey m r = Some []"
  by (simp add: toKey_def falsy_def)

lemma toKey_of_none: "normalizePath m r = None \<Longrightarrow> toKey m r = None"
  by (simp add: toKey_def falsy_def)

lemma toKey_of_path:
  "normalizePath m r = Some p \<Longrightarrow> p \<noteq> [] \<Longrightarrow>
   toKey m r = Some (if isCaseInsensitivePath m p then toLowerCase p else p)"
  by (simp add: toKey_def falsy_def)

lemma toKey_cong:
  "normalizePath m' = normalizePath m \<Longrightarrow> config m' = config m \<Longrightarrow> toKey m' r = toKey m r"
proof -
  assume np: "normalizePath m' = normalizePath m" and cfg: "config m' = config m"
  have "isCaseInsensitivePath m' = isCaseInsensitivePath m"
    by (rule ext) (simp only: isCaseInsensitivePath_def cfg)
  then show ?thesis by (simp only: toKey_def np)
qed

lemma normalizePath_set [simp]: "normalizePath (ResourceMap_set m r v) = normalizePath m"
  by (simp add: ResourceMap_set_def Let_def split: option.splits)

lemma config_set [simp]: "config (ResourceMap_set m r v) = config m"
  by (simp add: ResourceMap_set_def Let_def split: option.splits)

lemma normalizePath_delete [simp]: "normalizePath (ResourceMap_delete m r) = normalizePath m"
  by (simp add: ResourceMap_delete_def Let_def split: option.splits)

lemma config_delete [simp]: "config (ResourceMap_delete m r) = config m"
  by (simp add: ResourceMap_delete_def Let_def split: option.splits)

lemma toKey_set [simp]: "toKey (ResourceMap_set m r v) = toKey m"
  by (rule ext, rule toKey_cong) simp_all

lemma toKey_delete [simp]: "toKey (ResourceMap_delete m r) = toKey m"
  by (rule ext, rule toKey_cong) simp_all

lemma toKey_clear [simp]: "toKey (ResourceMap_clear m) = toKey m"
  by (rule ext, rule toKey_cong) (simp_all add: ResourceMap_clear_def)

text \<open>The four operations, by the key of the resource.\<close>

lemma has_key:
  "toKey m r = Some k \<Longrightarrow> k \<noteq> [] \<Longrightarrow> ResourceMap_has m r = (map_of (store m) k \<noteq> None)"
  by (simp add: ResourceMap_has_def falsy_def)

lemma get_key:
  "toKey m r = Some k \<Longrightarrow> k \<noteq> [] \<Longrightarrow> ResourceMap_get m r = map_option val (map_of (store m) k)"
  by (simp add: ResourceMap_get_def falsy_def split: option.splits)

lemma set_key:
  "toKey m r = Some k \<Longrightarrow> k \<noteq> [] \<Longrightarrow>
   store (ResourceMap_set m r v) =
     AList.update k (case map_of (store m) k of
                       None \<Rightarrow> \<lparr>resource = r, val = v\<rparr>
                     | Some e \<Rightarrow> e\<lparr>val := v\<rparr>) (store m)"
  by (simp add: ResourceMap_set_def falsy_def split: option.splits)

lemma delete_key:
  "toKey m r = Some k \<Longrightarrow> k \<noteq> [] \<Longrightarrow>
   store (ResourceMap_delete m r) = AList.delete k (store m)"
  by (simp add: ResourceMap_delete_def falsy_def)

lemma unresolved_key:
  assumes "toKey m r = None \<or> toKey m r = Some []"
  shows "\<not> ResourceMap_has m r" and "ResourceMap_get m r = None"
    and "ResourceMap_set m r v = m" and "ResourceMap_delete m r = m"
  using assms by (auto simp: rm_defs falsy_def)

lemma get_eq_None_iff_not_has: "ResourceMap_get m r = None \<longleftrightarrow> \<not> ResourceMap_has m r"
  by (auto simp: ResourceMap_get_def ResourceMap_has_def falsy_def Let_def split: option.splits)

lemma update_append_new:
  "map_of al k = None \<Longrightarrow> AList.update k v al = al @ [(k, v)]"
  by (induction al) (auto split: if_splits)

lemma map_fst_update_present:
  "map_of al k = Some e \<Longrightarrow> map fst (AList.update k v al) = map fst al"
  by (induction al) (auto split: if_splits)

lemma map_resource_update_present:
  "map_of al k = Some e \<Longrightarrow> resource v = resource e \<Longrightarrow>
   map (\<lambda>x. resource (snd x)) (AList.update k v al) = map (\<lambda>x. resource (snd x)) al"
  by (induction al) (auto split: if_splits)

lemma update_in_set: "(k, v) \<in> set (AList.update k v al)"
  by (induction al) auto

subsection \<open>Windows paths\<close>

lemma toKey_windows:
  assumes "normalizePath m u = Some p" and "isWindowsPath p"
  shows "toKey m u = Some (toLowerCase p)"
proof -
  from assms(2) have "p \<noteq> []" by auto
  with assms show ?thesis by (simp add: toKey_def falsy_def isCaseInsensitivePath_def)
qed


subsection \<open>Well-formed stores\<close>

lemma in_update_cases:
  "x \<in> set (AList.update k v al) \<Longrightarrow> x = (k, v) \<or> x \<in> set al"
  by (induction al) (auto split: if_splits)

lemma wf_new: "ResourceMap_wf (ResourceMap_new np cfg)"
  by (simp add: ResourceMap_wf_def ResourceMap_new_def)

lemma wf_clear: "ResourceMap_wf (ResourceMap_clear m)"
  by (simp add: ResourceMap_wf_def ResourceMap_clear_def)

lemma wf_delete:
  assumes "ResourceMap_wf m"
  shows "ResourceMap_wf (ResourceMap_delete m r)"
proof (cases "\<exists>k. toKey m r = Some k \<and> k \<noteq> []")
  case True
  then obtain k where k: "toKey m r = Some k" "k \<noteq> []" by blast
  have st: "store (ResourceMap_delete m r) = AList.delete k (store m)"
    by (rule delete_key [OF k])
  have "set (AList.delete k (store m)) \<subseteq> set (store m)"
    by (auto simp: AList.delete_eq)
  with assms show ?thesis
    unfolding ResourceMap_wf_def st by (auto simp: distinct_delete)
next
  case False
  then have "toKey m r = None \<or> toKey m r = Some []" by (cases "toKey m r") auto
  then have "ResourceMap_delete m r = m" by (rule unresolved_key)
  with assms show ?thesis by simp
qed

lemma wf_set:
  assumes "ResourceMap_wf m"
  shows "ResourceMap_wf (ResourceMap_set m r v)"
proof (cases "\<exists>k. toKey m r = Some k \<and> k \<noteq> []")
  case True
  then obtain k where k: "toKey m r = Some k" "k \<noteq> []" by blast
  define e' where "e' = (case map_of (store m) k of
                           None \<Rightarrow> \<lparr>resource = r, val = v\<rparr>
                         | Some e \<Rightarrow> e\<lparr>val := v\<rparr>)"
  have st: "store (ResourceMap_set m r v) = AList.update k e' (store m)"
    unfolding e'_def by (rule set_key [OF k])
  have res: "toKey m (resource e') = Some k"
  proof (cases "map_of (store m) k")
    case None
    then show ?thesis by (simp add: e'_def k)
  next
    case (Some e)
    then have "(k, e) \<in> set (store m)" by (rule map_of_SomeD)
    with assms have "toKey m (resource e) = Some k"
      by (auto simp: ResourceMap_wf_def)
    with Some show ?thesis by (simp add: e'_def)
  qed
  have "fst x \<noteq> [] \<and> toKey m (resource (snd x)) = Some (fst x)"
    if "x \<in> set (AList.update k e' (store m))" for x
    using in_update_cases [OF that] assms k res by (auto simp: ResourceMap_wf_def)
  moreover have "distinct (map fst (AList.update k e' (store m)))"
    using assms by (simp add: ResourceMap_wf_def distinct_update)
  ultimately show ?thesis
    unfolding ResourceMap_wf_def st by simp
next
  case False
  then have "toKey m r = None \<or> toKey m r = Some []" by (cases "toKey m r") auto
  then have "ResourceMap_set m r v = m" by (rule unresolved_key)
  with assms show ?thesis by simp
qed

lemma wf_apply: "ResourceMap_wf m \<Longrightarrow> ResourceMap_wf (ResourceMap_apply m opn)"
  by (cases opn) (simp_all add: wf_set wf_delete wf_clear)

lemma wf_run: "ResourceMap_wf m \<Longrightarrow> ResourceMap_wf (ResourceMap_run m ops)"
  unfolding ResourceMap_run_def by (induction ops arbitrary: m) (simp_all add: wf_apply)

lemma wf_reachable: "ResourceMap_wf (ResourceMap_run (ResourceMap_new np cfg) ops)"
  by (rule wf_run [OF wf_new])

lemma wf_no_empty_key: "ResourceMap_wf m \<Longrightarrow> [] \<notin> fst ` set (store m)"
  by (auto simp: ResourceMap_wf_def)

subsection \<open>Unresolvable and empty keys\<close>

text \<open>
  C10. When the path normaliser returns the empty string for a URI, the map treats the
  URI like one without a key: \<open>has\<close> is false, \<open>get\<close> returns nothing, \<open>set\<close> and \<open>delete\<close>
  leave the map as it is, and no run of operations on a fresh map ever creates an entry
  under the empty key.
\<close>

theorem empty_key_is_unresolvable:
  assumes "normalizePath m r = Some []"
  shows "\<not> ResourceMap_has m r \<and> ResourceMap_get m r = None
       \<and> ResourceMap_set m r v = m \<and> ResourceMap_delete m r = m
       \<and> [] \<notin> fst ` set (store (ResourceMap_run
                                   (ResourceMap_new (normalizePath m) (config m)) ops))"
proof -
  from assms have "toKey m r = None \<or> toKey m r = Some []"
    by (simp add: toKey_of_empty)
  note u = unresolved_key [OF this]
  have "[] \<notin> fst ` set (store (ResourceMap_run
                                (ResourceMap_new (normalizePath m) (config m)) ops))"
    by (rule wf_no_empty_key [OF wf_reachable])
  with u show ?thesis by simp
qed

theorem empty_key_is_unresolvable_witness:
  "normalizePath
       (ResourceMap_set
          (ResourceMap_new examplePathNormalizer \<lparr>onCaseInsensitiveFileSystem = False\<rparr>)
          (fileUri ''/a.ts'') (1::int))
       (fileUri []) = Some []
   \<and> ResourceMap_set
       (ResourceMap_set
          (ResourceMap_new examplePathNormalizer \<lparr>onCaseInsensitiveFileSystem = False\<rparr>)
          (fileUri ''/a.ts'') (1::int))
       (fileUri []) 2
     = ResourceMap_set
         (ResourceMap_new examplePathNormalizer \<lparr>onCaseInsensitiveFileSystem = False\<rparr>)
         (fileUri ''/a.ts'') 1
   \<and> ResourceMap_get
       (ResourceMap_set
          (ResourceMap_new examplePathNormalizer \<lparr>onCaseInsensitiveFileSystem = False\<rparr>)
          (fileUri ''/a.ts'') (1::int))
       (fileUri []) = None
   \<and> [] \<notin> fst ` set (store (ResourceMap_run
         (ResourceMap_new examplePathNormalizer \<lparr>onCaseInsensitiveFileSystem = False\<rparr>)
         [OpSet (fileUri []) (5::int), OpSet (fileUri ''/a.ts'') 7, OpDelete (fileUri [])]))"
proof -
  let ?m = "ResourceMap_set
          (ResourceMap_new examplePathNormalizer \<lparr>onCaseInsensitiveFileSystem = False\<rparr>)
          (fileUri ''/a.ts'') (1::int)"
  have np: "normalizePath ?m = examplePathNormalizer" "config ?m = \<lparr>onCaseInsensitiveFileSystem = False\<rparr>"
    by (simp_all add: ResourceMap_new_def)
  have h: "normalizePath ?m (fileUri []) = Some []"
    by (simp add: ResourceMap_new_def examplePathNormalizer_def fileUri_def)
  from empty_key_is_unresolvable [OF h, of 2
      "[OpSet (fileUri []) (5::int), OpSet (fileUri ''/a.ts'') 7, OpDelete (fileUri [])]"] h
  show ?thesis by (simp only: np) simp
qed

subsection \<open>The first-inserted resource is the one iteration yields\<close>

text \<open>
  C3. For a URI \<open>u\<close> with a key: when the key is new, \<open>set\<close> appends an entry whose
  resource is \<open>u\<close> itself, not its key; when the key is present, \<open>set\<close> replaces the value
  and every entry keeps its resource and its place, so the first-inserted URI stays. A
  lookup by any URI with the same key finds the value: in particular, when \<open>u\<close> has a
  Windows-style path, a lookup by a URI with a Windows-style path that lower-cases to
  the same string, whatever the case mapping does beyond ASCII.
\<close>

theorem set_retains_first_resource:
  assumes "toKey m u = Some k" and "k \<noteq> []"
  shows "(map_of (store m) k = None \<longrightarrow>
            ResourceMap_entries (ResourceMap_set m u v)
              = ResourceMap_entries m @ [\<lparr>resource = u, val = v\<rparr>])
       \<and> (\<forall>e. map_of (store m) k = Some e \<longrightarrow>
            map resource (ResourceMap_entries (ResourceMap_set m u v))
              = map resource (ResourceMap_entries m)
            \<and> \<lparr>resource = resource e, val = v\<rparr> \<in> set (ResourceMap_entries (ResourceMap_set m u v)))
       \<and> (\<forall>u'. toKey m u' = Some k \<longrightarrow> ResourceMap_get (ResourceMap_set m u v) u' = Some v)
       \<and> (\<forall>u' p p'. normalizePath m u = Some p \<and> normalizePath m u' = Some p'
              \<and> isWindowsPath p \<and> isWindowsPath p' \<and> toLowerCase p' = toLowerCase p \<longrightarrow>
            ResourceMap_get (ResourceMap_set m u v) u' = Some v)"
  (is "?fresh \<and> ?kept \<and> ?found \<and> ?windows")
proof -
  define e' where "e' = (case map_of (store m) k of
                           None \<Rightarrow> \<lparr>resource = u, val = v\<rparr>
                         | Some e \<Rightarrow> e\<lparr>val := v\<rparr>)"
  have st: "store (ResourceMap_set m u v) = AList.update k e' (store m)"
    unfolding e'_def by (rule set_key [OF assms])
  have val: "val e' = v"
    by (simp add: e'_def split: option.splits)
  have fresh: "ResourceMap_entries (ResourceMap_set m u v)
                 = ResourceMap_entries m @ [\<lparr>resource = u, val = v\<rparr>]"
    if "map_of (store m) k = None"
    using that by (simp add: ResourceMap_entries_def st e'_def update_append_new)
  have kept: "map resource (ResourceMap_entries (ResourceMap_set m u v))
                = map resource (ResourceMap_entries m)
              \<and> \<lparr>resource = resource e, val = v\<rparr> \<in> set (ResourceMap_entries (ResourceMap_set m u v))"
    if e: "map_of (store m) k = Some e" for e
  proof -
    have e'_eq: "e' = \<lparr>resource = resource e, val = v\<rparr>"
      using e by (simp add: e'_def)
    have "map (\<lambda>x. resource (snd x)) (AList.update k e' (store m))
            = map (\<lambda>x. resource (snd x)) (store m)"
      by (rule map_resource_update_present [OF e]) (simp add: e'_eq)
    moreover have "(k, e') \<in> set (AList.update k e' (store m))"
      by (rule update_in_set)
    then have "e' \<in> snd ` set (AList.update k e' (store m))"
      by force
    ultimately show ?thesis
      by (simp add: ResourceMap_entries_def st e'_eq comp_def)
  qed
  have found: "ResourceMap_get (ResourceMap_set m u v) u' = Some v"
    if "toKey m u' = Some k" for u'
  proof -
    from that have "toKey (ResourceMap_set m u v) u' = Some k" by simp
    from get_key [OF this assms(2)] show ?thesis
      by (simp add: st update_conv' val)
  qed
  have windows: "ResourceMap_get (ResourceMap_set m u v) u' = Some v"
    if p: "normalizePath m u = Some p" and p': "normalizePath m u' = Some p'"
      and w: "isWindowsPath p" and w': "isWindowsPath p'"
      and low: "toLowerCase p' = toLowerCase p" for u' p p'
  proof -
    from toKey_windows [OF p w] assms(1) have "k = toLowerCase p" by simp
    with toKey_windows [OF p' w'] low have "toKey m u' = Some k" by simp
    then show ?thesis by (rule found)
  qed
  have c1: ?fresh using fresh by blast
  have c2: ?kept using kept by blast
  have c3: ?found using found by blast
  have c4: ?windows using windows by blast
  show ?thesis by (intro conjI c1 c2 c3 c4)
qed

theorem set_retains_first_resource_witness:
  "toKey (ResourceMap_new examplePathNormalizer \<lparr>onCaseInsensitiveFileSystem = False\<rparr>
            :: int ResourceMap)
      (fileUri ''/C:/A/B.ts'') = Some ''c:/a/b.ts''
   \<and> ResourceMap_entries
       (ResourceMap_set
          (ResourceMap_new examplePathNormalizer \<lparr>onCaseInsensitiveFileSystem = False\<rparr>)
          (fileUri ''/C:/A/B.ts'') (1::int))
     = [\<lparr>resource = fileUri ''/C:/A/B.ts'', val = 1\<rparr>]
   \<and> ResourceMap_get
       (ResourceMap_set
          (ResourceMap_new examplePathNormalizer \<lparr>onCaseInsensitiveFileSystem = False\<rparr>)
          (fileUri ''/C:/A/B.ts'') (1::int))
       (fileUri ''/c:/a/b.ts'') = Some 1
   \<and> map resource (ResourceMap_entries
       (ResourceMap_set
          (ResourceMap_set
             (ResourceMap_new examplePathNormalizer \<lparr>onCaseInsensitiveFileSystem = False\<rparr>)
             (fileUri ''/C:/A/B.ts'') (1::int))
          (fileUri ''/c:/a/b.ts'') 2))
     = [fileUri ''/C:/A/B.ts'']
   \<and> ResourceMap_get
       (ResourceMap_set
          (ResourceMap_set
             (ResourceMap_new examplePathNormalizer \<lparr>onCaseInsensitiveFileSystem = False\<rparr>)
             (fileUri ''/C:/A/B.ts'') (1::int))
          (fileUri ''/c:/a/b.ts'') 2)
       (fileUri ''/C:/A/B.ts'') = Some 2"
proof -
  let ?m = "ResourceMap_new examplePathNormalizer \<lparr>onCaseInsensitiveFileSystem = False\<rparr>
              :: int ResourceMap"
  let ?u = "fileUri ''/C:/A/B.ts''"
  let ?u' = "fileUri ''/c:/a/b.ts''"
  let ?m1 = "ResourceMap_set ?m ?u 1"
  have p: "normalizePath ?m ?u = Some ''C:/A/B.ts''"
    by (simp add: ResourceMap_new_def examplePathNormalizer_def fileUri_def isAsciiLetter_def
        upperCaseLetters_def lowerCaseLetters_def)
  have p': "normalizePath ?m ?u' = Some ''c:/a/b.ts''"
    by (simp add: ResourceMap_new_def examplePathNormalizer_def fileUri_def isAsciiLetter_def
        upperCaseLetters_def lowerCaseLetters_def)
  have w: "isWindowsPath ''C:/A/B.ts''" "isWindowsPath ''c:/a/b.ts''"
    by (simp_all add: isAsciiLetter_def upperCaseLetters_def lowerCaseLetters_def)
  have low: "toLowerCase ''c:/a/b.ts'' = toLowerCase ''C:/A/B.ts''"
    by (simp add: string_defs)
  have k: "toKey ?m ?u = Some ''c:/a/b.ts''"
    using toKey_windows [OF p w(1)] by (simp add: string_defs)
  have k': "toKey ?m1 ?u' = Some ''c:/a/b.ts''"
    using toKey_windows [OF p' w(2)] by (simp add: string_defs)
  have k1: "toKey ?m1 ?u = Some ''c:/a/b.ts''"
    using k by simp
  have empty: "map_of (store ?m) ''c:/a/b.ts'' = None" "ResourceMap_entries ?m = []"
    by (simp_all add: ResourceMap_new_def ResourceMap_entries_def)
  note T = set_retains_first_resource [OF k, of 1]
  from T empty have e1: "ResourceMap_entries ?m1 = [\<lparr>resource = ?u, val = 1\<rparr>]"
    by simp
  from T p p' w low have g1: "ResourceMap_get ?m1 ?u' = Some 1"
    by blast
  have st0: "store ?m = []"
    by (simp add: ResourceMap_new_def)
  have present: "map_of (store ?m1) ''c:/a/b.ts'' = Some \<lparr>resource = ?u, val = 1\<rparr>"
    by (simp add: set_key [OF k] st0)
  note T2 = set_retains_first_resource [OF k', of 2]
  from T2 present have "map resource (ResourceMap_entries (ResourceMap_set ?m1 ?u' 2))
      = map resource (ResourceMap_entries ?m1)"
    by blast
  then have e2: "map resource (ResourceMap_entries (ResourceMap_set ?m1 ?u' 2)) = [?u]"
    by (simp add: e1)
  from T2 k1 have g2: "ResourceMap_get (ResourceMap_set ?m1 ?u' 2) ?u = Some 2"
    by blast
  from k e1 g1 e2 g2 show ?thesis by (intro conjI)
qed

section \<open>Properties of the synchronizer and the buffers\<close>

lemmas state_defs = BufferState_Initial_def BufferState_Open_def BufferState_Closed_def

lemmas sync_defs = BufferSynchronizer_new_def supportsBatching_def API_gte_def API_v340_def
  API_v440_def Client_execute_def BufferSynchronizer_close_def BufferSynchronizer_open_def

subsection \<open>Closing a buffer\<close>

lemma SyncedBuffer_close_Initial:
  "state b = BufferState_Initial \<Longrightarrow>
   SyncedBuffer_close b s = (Inr False, b\<lparr>state := BufferState_Closed\<rparr>, s)"
  by (simp add: SyncedBuffer_close_def state_defs)

lemma SyncedBuffer_close_Closed:
  "state b = BufferState_Closed \<Longrightarrow>
   SyncedBuffer_close b s =
     (case BufferSynchronizer_close s (buffer_resource b) (filepath b) of
        Inl e \<Rightarrow> (Inl e, b\<lparr>state := BufferState_Closed\<rparr>, s)
      | Inr res \<Rightarrow> (Inr (fst res), b\<lparr>state := BufferState_Closed\<rparr>, snd res))"
  by (simp add: SyncedBuffer_close_def state_defs)

text \<open>
  C1. The claim: \<open>close()\<close> on a buffer that is not Open moves it to Closed and returns
  false, and a second \<open>close()\<close> on a closed buffer returns false without asking the
  synchronizer. \<open>Open\<close> and \<open>Closed\<close> are the same tag, so a closed buffer passes the test
  for Open: a buffer that was never opened and is closed twice answers false, then true,
  and the second call hands a Close for it to the back-end (here on a client without
  batching).
\<close>

theorem close_twice_delegates:
  "(case SyncedBuffer_close
           (SyncedBuffer_new (exampleDocument ''/src/a.ts'' ''typescript'' 10) ''/src/a.ts'')
           (exampleSynchronizer (3, 3, 0)) of
      (wasOpen1, b1, s1) \<Rightarrow>
        (case SyncedBuffer_close b1 s1 of
           (wasOpen2, b2, s2) \<Rightarrow> (wasOpen1, state b1, wasOpen2, state b2, executed (client s2))))
   = (Inr False, BufferState_Closed, Inr True, BufferState_Closed, [Cmd_Close ''/src/a.ts''])"
  by (simp add: SyncedBuffer_close_def SyncedBuffer_new_def state_defs sync_defs fixture_defs)

text \<open>With batching the second \<open>close()\<close> answers true as well, and queues a Close.\<close>

lemma close_twice_batching_example:
  "(case SyncedBuffer_close
           (SyncedBuffer_new (exampleDocument ''/src/a.ts'' ''typescript'' 10) ''/src/a.ts'')
           (exampleSynchronizer (5, 0, 0)) of
      (wasOpen1, b1, s1) \<Rightarrow>
        (case SyncedBuffer_close b1 s1 of
           (wasOpen2, b2, s2) \<Rightarrow>
             (wasOpen1, wasOpen2, ResourceMap_get (pending s2) (fileUri ''/src/a.ts''))))
   = (Inr False, Inr True, Some (CloseOperation ''/src/a.ts''))"
  by (simp add: SyncedBuffer_close_def SyncedBuffer_new_def state_defs sync_defs
      updatePending_def buffer_resource_def fixture_defs rm_defs key_defs)

subsection \<open>Lookups after an update\<close>

lemma has_size: "ResourceMap_has m r \<Longrightarrow> 0 < ResourceMap_size m"
  by (auto simp: ResourceMap_has_def ResourceMap_size_def Let_def split: option.splits)

lemma get_Some_key:
  assumes "ResourceMap_get m r = Some x"
  obtains k e where "toKey m r = Some k" "k \<noteq> []" "map_of (store m) k = Some e" "val e = x"
  using assms
  by (auto simp: ResourceMap_get_def falsy_def Let_def split: option.splits if_splits)

lemma get_Some_has: "ResourceMap_get m r = Some x \<Longrightarrow> ResourceMap_has m r"
  using get_eq_None_iff_not_has [of m r] by auto

lemma supportsBatching_pending [simp]: "supportsBatching (s\<lparr>pending := p\<rparr>) = supportsBatching s"
  by (simp add: supportsBatching_def)

lemma get_set_same:
  assumes "toKey m r = Some k" and "k \<noteq> []"
  shows "ResourceMap_get (ResourceMap_set m r v) r = Some v"
proof -
  from assms have "toKey (ResourceMap_set m r v) r = Some k" by simp
  from get_key [OF this assms(2)] show ?thesis
    by (simp add: set_key [OF assms] update_conv' split: option.splits)
qed

lemma has_delete_same: "\<not> ResourceMap_has (ResourceMap_delete m r) r"
proof (cases "\<exists>k. toKey m r = Some k \<and> k \<noteq> []")
  case True
  then obtain k where k: "toKey m r = Some k" "k \<noteq> []" by blast
  then have "toKey (ResourceMap_delete m r) r = Some k" by simp
  from has_key [OF this k(2)] show ?thesis
    by (simp add: delete_key [OF k] delete_conv')
next
  case False
  then have "toKey (ResourceMap_delete m r) r = None \<or> toKey (ResourceMap_delete m r) r = Some []"
    by (cases "toKey m r") auto
  then show ?thesis by (rule unresolved_key)
qed

lemma delete_set_fresh:
  assumes "toKey m r = Some k" and "k \<noteq> []" and "\<not> ResourceMap_has m r"
  shows "ResourceMap_delete (ResourceMap_set m r v) r = m"
proof -
  from assms have none: "map_of (store m) k = None" by (simp add: has_key)
  then have notin: "k \<notin> fst ` set (store m)" by (simp add: map_of_eq_None_iff)
  from assms have k': "toKey (ResourceMap_set m r v) r = Some k" by simp
  have "store (ResourceMap_delete (ResourceMap_set m r v) r) = store m"
    by (simp add: delete_key [OF k' assms(2)] set_key [OF assms(1,2)] none
        delete_update_same notin)
  moreover have "normalizePath (ResourceMap_delete (ResourceMap_set m r v) r) = normalizePath m"
    "config (ResourceMap_delete (ResourceMap_set m r v) r) = config m"
    by simp_all
  ultimately show ?thesis by (cases m) (simp add: ResourceMap_delete_def ResourceMap_set_def Let_def falsy_def split: option.splits)
qed

subsection \<open>The flush\<close>

text \<open>The loop of \<open>flush\<close> sorts the operations into the three lists, each in map order.\<close>

lemma foldl_flush_push:
  "foldl flush_push acc ops
     = \<lparr>changedFiles = changedFiles acc @ [a. ChangeOperation a \<leftarrow> ops],
        closedFiles = closedFiles acc @ [a. CloseOperation a \<leftarrow> ops],
        openFiles = openFiles acc @ [a. OpenOperation a \<leftarrow> ops]\<rparr>"
proof (induction ops arbitrary: acc)
  case Nil
  then show ?case by simp
next
  case (Cons x ops)
  then show ?case by (cases x) simp_all
qed

lemma flush_args_partition:
  "flush_args ops
     = \<lparr>changedFiles = [a. ChangeOperation a \<leftarrow> ops],
        closedFiles = [a. CloseOperation a \<leftarrow> ops],
        openFiles = [a. OpenOperation a \<leftarrow> ops]\<rparr>"
  by (simp add: flush_args_def foldl_flush_push)

text \<open>With batching, a flush of a map that holds anything throws, and changes nothing.\<close>

lemma flush_throws:
  assumes "supportsBatching s" and "ResourceMap_has (pending s) r"
  shows "flush s = Inl (ReferenceError ''nulToken'')"
  using assms has_size [OF assms(2)] by (simp add: flush_def)

lemma flush_idle:
  "supportsBatching s \<Longrightarrow> ResourceMap_size (pending s) = 0 \<Longrightarrow> flush s = Inr s"
  by (simp add: flush_def)

lemma flush_legacy:
  "\<not> supportsBatching s \<Longrightarrow> flush s = Inr (s\<lparr>pending := ResourceMap_clear (pending s)\<rparr>)"
  by (simp add: flush_def)

subsection \<open>Coalescing of pending operations\<close>

text \<open>The part of the coalescing that never reaches the flush.\<close>

lemma updatePending_elide:
  assumes "ResourceMap_get (pending s) r = Some (OpenOperation args)"
  shows "updatePending s r (CloseOperation fp)
           = Inr (False, s\<lparr>pending := ResourceMap_delete (pending s) r\<rparr>)"
  using assms by (simp add: updatePending_def)

lemma updatePending_fresh:
  assumes "\<not> ResourceMap_has (pending s) r"
  shows "updatePending s r op = Inr (True, s\<lparr>pending := ResourceMap_set (pending s) r op\<rparr>)"
proof -
  from assms have "ResourceMap_get (pending s) r = None"
    by (simp add: get_eq_None_iff_not_has)
  with assms show ?thesis by (cases op) (simp_all add: updatePending_def)
qed

lemma open_then_close_elided:
  assumes "supportsBatching s" and "toKey (pending s) r = Some k" and "k \<noteq> []"
    and "\<not> ResourceMap_has (pending s) r"
  shows "BufferSynchronizer_open s r args
           = Inr (s\<lparr>pending := ResourceMap_set (pending s) r (OpenOperation args)\<rparr>)"
    and "BufferSynchronizer_close
           (s\<lparr>pending := ResourceMap_set (pending s) r (OpenOperation args)\<rparr>) r fp
           = Inr (False, s)"
proof -
  let ?s1 = "s\<lparr>pending := ResourceMap_set (pending s) r (OpenOperation args)\<rparr>"
  show "BufferSynchronizer_open s r args = Inr ?s1"
    using assms(1) by (simp add: BufferSynchronizer_open_def updatePending_fresh [OF assms(4)])
  have g1: "ResourceMap_get (pending ?s1) r = Some (OpenOperation args)"
    by (simp add: get_set_same [OF assms(2,3)])
  have "BufferSynchronizer_close ?s1 r fp
          = Inr (False, ?s1\<lparr>pending := ResourceMap_delete (pending ?s1) r\<rparr>)"
    using assms(1) by (simp add: BufferSynchronizer_close_def updatePending_elide [OF g1])
  also have "ResourceMap_delete (pending ?s1) r = pending s"
    by (simp add: delete_set_fresh [OF assms(2,3,4)])
  finally show "BufferSynchronizer_close ?s1 r fp = Inr (False, s)" by simp
qed

text \<open>Every other meeting of a pending operation with a new one reaches the flush.\<close>

lemma updatePending_throws:
  assumes batching: "supportsBatching s"
    and existing: "ResourceMap_get (pending s) r = Some existing"
    and other: "\<not> (\<exists>args fp. existing = OpenOperation args \<and> op = CloseOperation fp)"
  shows "updatePending s r op = Inl (ReferenceError ''nulToken'')"
proof -
  have has: "ResourceMap_has (pending s) r" by (rule get_Some_has [OF existing])
  have cond: "\<not> (case op of
                   CloseOperation a \<Rightarrow>
                     (case ResourceMap_get (pending s) r of
                        Some (OpenOperation b) \<Rightarrow> True | _ \<Rightarrow> False)
                 | _ \<Rightarrow> False)"
    using existing other by (cases op; cases existing) simp_all
  show ?thesis
    unfolding updatePending_def using cond has
    by (simp add: flush_throws [OF batching has])
qed

text \<open>
  C2. The claim: in batching mode a Close that meets a pending Open for the same resource
  deletes the pending entry, returns false and produces no command; any other new
  operation on a resource with a pending operation flushes the whole batch and is then
  stored, returning true. The first half holds (\<open>updatePending_elide\<close>,
  \<open>open_then_close_elided\<close>). The second does not: the flush throws on the unbound
  \<open>nulToken\<close> before anything is sent, cleared or stored. Here a file is opened and then
  changed: the Open is pending, the Change reaches the flush, and \<open>updatePending\<close> ends in
  a \<open>ReferenceError\<close> in place of true.
\<close>

theorem updatePending_flush_throws:
  "supportsBatching (exampleSynchronizer (5, 0, 0))
   \<and> BufferSynchronizer_open (exampleSynchronizer (5, 0, 0)) (fileUri ''/u.ts'')
        \<lparr>open_file = ''/u.ts'', fileContent = ''let u;'', projectRootPath = None,
         scriptKindName = Some TS\<rparr>
      = Inr ((exampleSynchronizer (5, 0, 0))
               \<lparr>pending := ResourceMap_set (pending (exampleSynchronizer (5, 0, 0)))
                  (fileUri ''/u.ts'')
                  (OpenOperation \<lparr>open_file = ''/u.ts'', fileContent = ''let u;'',
                                  projectRootPath = None, scriptKindName = Some TS\<rparr>)\<rparr>)
   \<and> ResourceMap_get
        (ResourceMap_set (pending (exampleSynchronizer (5, 0, 0))) (fileUri ''/u.ts'')
           (OpenOperation \<lparr>open_file = ''/u.ts'', fileContent = ''let u;'',
                           projectRootPath = None, scriptKindName = Some TS\<rparr>))
        (fileUri ''/u.ts'')
      = Some (OpenOperation \<lparr>open_file = ''/u.ts'', fileContent = ''let u;'',
                              projectRootPath = None, scriptKindName = Some TS\<rparr>)
   \<and> updatePending
        ((exampleSynchronizer (5, 0, 0))
           \<lparr>pending := ResourceMap_set (pending (exampleSynchronizer (5, 0, 0)))
              (fileUri ''/u.ts'')
              (OpenOperation \<lparr>open_file = ''/u.ts'', fileContent = ''let u;'',
                              projectRootPath = None, scriptKindName = Some TS\<rparr>)\<rparr>)
        (fileUri ''/u.ts'')
        (ChangeOperation \<lparr>fileName = ''/u.ts'', textChanges = []\<rparr>)
      = Inl (ReferenceError ''nulToken'')"
proof -
  let ?s = "exampleSynchronizer (5, 0, 0)"
  let ?r = "fileUri ''/u.ts''"
  let ?args = "\<lparr>open_file = ''/u.ts'', fileContent = ''let u;'', projectRootPath = None,
                scriptKindName = Some TS\<rparr>"
  let ?s1 = "?s\<lparr>pending := ResourceMap_set (pending ?s) ?r (OpenOperation ?args)\<rparr>"
  let ?op = "ChangeOperation \<lparr>fileName = ''/u.ts'', textChanges = []\<rparr>"
  have b: "supportsBatching ?s"
    by (simp add: sync_defs fixture_defs)
  have k: "toKey (pending ?s) ?r = Some ''/u.ts''"
    by (simp add: sync_defs fixture_defs ResourceMap_new_def key_defs)
  have ne: "''/u.ts'' \<noteq> []" by simp
  have nohas: "\<not> ResourceMap_has (pending ?s) ?r"
    by (simp add: has_key [OF k]) (simp add: sync_defs fixture_defs ResourceMap_new_def)
  have opened: "BufferSynchronizer_open ?s ?r ?args = Inr ?s1"
    by (rule open_then_close_elided(1) [OF b k ne nohas])
  have g1: "ResourceMap_get (pending ?s1) ?r = Some (OpenOperation ?args)"
    by (simp add: get_set_same [OF k])
  then have g1': "ResourceMap_get (ResourceMap_set (pending ?s) ?r (OpenOperation ?args)) ?r
      = Some (OpenOperation ?args)"
    by simp
  have b1: "supportsBatching ?s1"
    using b by simp
  have other: "\<not> (\<exists>args fp. OpenOperation ?args = OpenOperation args \<and> ?op = CloseOperation fp)"
    by simp
  have thrown: "updatePending ?s1 ?r ?op = Inl (ReferenceError ''nulToken'')"
    by (rule updatePending_throws [OF b1 g1 other])
  from b opened g1' thrown show ?thesis by (intro conjI)
qed

subsection \<open>Content changes\<close>

lemma change_edits_eq:
  "change_edits events
     = map (\<lambda>e. \<lparr>start_loc = \<lparr>line = pos_line (range_start (the (change_range e))) + 1,
                               offset = pos_character (range_start (the (change_range e))) + 1\<rparr>,
                  end_loc = \<lparr>line = pos_line (range_end (the (change_range e))) + 1,
                             offset = pos_character (range_end (the (change_range e))) + 1\<rparr>,
                  newText = change_text e\<rparr>)
         (filter (\<lambda>e. change_range e \<noteq> None) events)"
  by (induction events) (auto simp: Position_toLocation_def split: option.splits)

text \<open>
  C6. In batching mode, \<open>change(resource, filepath, events)\<close> with at least one event
  stores for the resource a Change operation whose \<open>textChanges\<close> are the edits of the
  events that carry a range, each with 1-based line and offset, in the reverse of the
  editor's event order.
\<close>

text \<open>On a resource without a pending operation the change is stored, its edits reversed.\<close>

lemma change_fresh_stores:
  assumes "supportsBatching s" and "events \<noteq> []"
    and "toKey (pending s) r = Some k" and "k \<noteq> []"
    and "\<not> ResourceMap_has (pending s) r"
  shows "BufferSynchronizer_change s r fp events
           = Inr (s\<lparr>pending := ResourceMap_set (pending s) r
                     (ChangeOperation \<lparr>fileName = fp, textChanges = rev (change_edits events)\<rparr>)\<rparr>)"
    and "ResourceMap_get
           (ResourceMap_set (pending s) r
              (ChangeOperation \<lparr>fileName = fp, textChanges = rev (change_edits events)\<rparr>)) r
           = Some (ChangeOperation \<lparr>fileName = fp, textChanges = rev (change_edits events)\<rparr>)"
  using assms
  by (simp_all add: BufferSynchronizer_change_def updatePending_fresh get_set_same)

text \<open>On a resource with a pending operation the change reaches the flush, which throws.\<close>

lemma change_pending_throws:
  assumes "supportsBatching s" and "events \<noteq> []"
    and "ResourceMap_get (pending s) r = Some existing"
  shows "BufferSynchronizer_change s r fp events = Inl (ReferenceError ''nulToken'')"
proof -
  have "\<not> (\<exists>args fp'. existing = OpenOperation args
            \<and> ChangeOperation \<lparr>fileName = fp, textChanges = rev (change_edits events)\<rparr>
                = CloseOperation fp')"
    by simp
  from updatePending_throws [OF assms(1,3) this] assms(1,2) show ?thesis
    by (simp add: BufferSynchronizer_change_def)
qed

text \<open>
  C6. The claim: in batching mode every \<open>change(resource, filepath, events)\<close> stores a
  Change operation whose \<open>textChanges\<close> are the 1-based edits of the ranged events in
  reverse event order, and these are the \<open>textChanges\<close> that are sent. The translation and
  the reversal are as claimed, and on a resource without a pending operation the
  operation is stored (\<open>change_fresh_stores\<close>). But nothing is sent: the flush of the stored
  change throws on the unbound \<open>nulToken\<close>; and on the ordinary path, a change to a file
  whose Open is still pending, \<open>change\<close> itself throws and stores nothing. Here, for the
  two events on lines 1 and 5: the change to a fresh file is stored with the line-5 edit
  first, the flush a later command forces throws, and the same change after an \<open>open\<close>
  throws.
\<close>

theorem change_is_never_sent:
  "BufferSynchronizer_change (exampleSynchronizer (5, 0, 0)) (fileUri ''/a.ts'') ''/a.ts''
     [\<lparr>change_range = Some \<lparr>range_start = \<lparr>pos_line = 1, pos_character = 1\<rparr>,
                             range_end = \<lparr>pos_line = 1, pos_character = 2\<rparr>\<rparr>,
       change_text = ''x''\<rparr>,
      \<lparr>change_range = Some \<lparr>range_start = \<lparr>pos_line = 5, pos_character = 1\<rparr>,
                             range_end = \<lparr>pos_line = 5, pos_character = 2\<rparr>\<rparr>,
       change_text = ''y''\<rparr>]
   = Inr ((exampleSynchronizer (5, 0, 0))
            \<lparr>pending := ResourceMap_set (pending (exampleSynchronizer (5, 0, 0)))
               (fileUri ''/a.ts'')
               (ChangeOperation
                  \<lparr>fileName = ''/a.ts'',
                   textChanges =
                     [\<lparr>start_loc = \<lparr>line = 6, offset = 2\<rparr>, end_loc = \<lparr>line = 6, offset = 3\<rparr>,
                       newText = ''y''\<rparr>,
                      \<lparr>start_loc = \<lparr>line = 2, offset = 2\<rparr>, end_loc = \<lparr>line = 2, offset = 3\<rparr>,
                       newText = ''x''\<rparr>]\<rparr>)\<rparr>)
   \<and> beforeCommand
       ((exampleSynchronizer (5, 0, 0))
          \<lparr>pending := ResourceMap_set (pending (exampleSynchronizer (5, 0, 0)))
             (fileUri ''/a.ts'')
             (ChangeOperation
                \<lparr>fileName = ''/a.ts'',
                 textChanges =
                   [\<lparr>start_loc = \<lparr>line = 6, offset = 2\<rparr>, end_loc = \<lparr>line = 6, offset = 3\<rparr>,
                     newText = ''y''\<rparr>,
                    \<lparr>start_loc = \<lparr>line = 2, offset = 2\<rparr>, end_loc = \<lparr>line = 2, offset = 3\<rparr>,
                     newText = ''x''\<rparr>]\<rparr>)\<rparr>)
       ''geterr''
     = Inl (ReferenceError ''nulToken'')
   \<and> BufferSynchronizer_change
       ((exampleSynchronizer (5, 0, 0))
          \<lparr>pending := ResourceMap_set (pending (exampleSynchronizer (5, 0, 0)))
             (fileUri ''/a.ts'')
             (OpenOperation \<lparr>open_file = ''/a.ts'', fileContent = ''let a;'',
                             projectRootPath = None, scriptKindName = Some TS\<rparr>)\<rparr>)
       (fileUri ''/a.ts'') ''/a.ts''
       [\<lparr>change_range = Some \<lparr>range_start = \<lparr>pos_line = 1, pos_character = 1\<rparr>,
                               range_end = \<lparr>pos_line = 1, pos_character = 2\<rparr>\<rparr>,
         change_text = ''x''\<rparr>,
        \<lparr>change_range = Some \<lparr>range_start = \<lparr>pos_line = 5, pos_character = 1\<rparr>,
                               range_end = \<lparr>pos_line = 5, pos_character = 2\<rparr>\<rparr>,
         change_text = ''y''\<rparr>]
     = Inl (ReferenceError ''nulToken'')"
proof -
  let ?s = "exampleSynchronizer (5, 0, 0)"
  let ?r = "fileUri ''/a.ts''"
  let ?evs = "[\<lparr>change_range = Some \<lparr>range_start = \<lparr>pos_line = 1, pos_character = 1\<rparr>,
                                range_end = \<lparr>pos_line = 1, pos_character = 2\<rparr>\<rparr>,
          change_text = ''x''\<rparr>,
         \<lparr>change_range = Some \<lparr>range_start = \<lparr>pos_line = 5, pos_character = 1\<rparr>,
                                range_end = \<lparr>pos_line = 5, pos_character = 2\<rparr>\<rparr>,
          change_text = ''y''\<rparr>]"
  let ?edits = "[\<lparr>start_loc = \<lparr>line = 6, offset = 2\<rparr>, end_loc = \<lparr>line = 6, offset = 3\<rparr>,
           newText = ''y''\<rparr>,
          \<lparr>start_loc = \<lparr>line = 2, offset = 2\<rparr>, end_loc = \<lparr>line = 2, offset = 3\<rparr>,
           newText = ''x''\<rparr>]"
  let ?change = "ChangeOperation \<lparr>fileName = ''/a.ts'', textChanges = ?edits\<rparr>"
  let ?open = "OpenOperation \<lparr>open_file = ''/a.ts'', fileContent = ''let a;'',
                             projectRootPath = None, scriptKindName = Some TS\<rparr>"
  let ?s1 = "?s\<lparr>pending := ResourceMap_set (pending ?s) ?r ?change\<rparr>"
  let ?s2 = "?s\<lparr>pending := ResourceMap_set (pending ?s) ?r ?open\<rparr>"
  have b: "supportsBatching ?s"
    by (simp add: sync_defs fixture_defs)
  have k: "toKey (pending ?s) ?r = Some ''/a.ts''"
    by (simp add: sync_defs fixture_defs ResourceMap_new_def key_defs)
  have ne: "''/a.ts'' \<noteq> []" "?evs \<noteq> []" by simp_all
  have nohas: "\<not> ResourceMap_has (pending ?s) ?r"
    by (simp add: has_key [OF k]) (simp add: sync_defs fixture_defs ResourceMap_new_def)
  have edits: "rev (change_edits ?evs) = ?edits"
    by (simp add: Position_toLocation_def)
  have stored: "BufferSynchronizer_change ?s ?r ''/a.ts'' ?evs = Inr ?s1"
    using change_fresh_stores(1) [OF b ne(2) k ne(1) nohas, of "''/a.ts''"]
    by (simp only: edits)
  have g1: "ResourceMap_get (pending ?s1) ?r = Some ?change"
    by (simp add: get_set_same [OF k])
  have b1: "supportsBatching ?s1" using b by simp
  have "flush ?s1 = Inl (ReferenceError ''nulToken'')"
    by (rule flush_throws [OF b1 get_Some_has [OF g1]])
  then have unsent: "beforeCommand ?s1 ''geterr'' = Inl (ReferenceError ''nulToken'')"
    by (simp add: beforeCommand_def)
  have g2: "ResourceMap_get (pending ?s2) ?r = Some ?open"
    by (simp add: get_set_same [OF k])
  have b2: "supportsBatching ?s2" using b by simp
  have thrown: "BufferSynchronizer_change ?s2 ?r ''/a.ts'' ?evs = Inl (ReferenceError ''nulToken'')"
    by (rule change_pending_throws [OF b2 ne(2) g2])
  from stored unsent thrown show ?thesis by (intro conjI)
qed

section \<open>Properties of the pending diagnostics\<close>

lemma foldl_set_store:
  assumes "\<forall>r \<in> set rs. \<exists>k. toKey m r = Some k \<and> k \<noteq> []"
    and "distinct (map (\<lambda>r. the (toKey m r)) rs)"
    and "\<forall>r \<in> set rs. the (toKey m r) \<notin> fst ` set (store m)"
  shows "store (foldl (\<lambda>m r. ResourceMap_set m r v) m rs)
           = store m @ map (\<lambda>r. (the (toKey m r), \<lparr>resource = r, val = v\<rparr>)) rs"
  using assms
proof (induction rs arbitrary: m)
  case Nil
  then show ?case by simp
next
  case (Cons r rs)
  from Cons.prems(1) obtain k where k: "toKey m r = Some k" "k \<noteq> []" by auto
  from Cons.prems(3) k have none: "map_of (store m) k = None"
    by (simp add: map_of_eq_None_iff)
  let ?m1 = "ResourceMap_set m r v"
  have st1: "store ?m1 = store m @ [(k, \<lparr>resource = r, val = v\<rparr>)]"
    by (simp add: set_key [OF k] none update_append_new)
  have "store (foldl (\<lambda>m r. ResourceMap_set m r v) ?m1 rs)
          = store ?m1 @ map (\<lambda>r. (the (toKey ?m1 r), \<lparr>resource = r, val = v\<rparr>)) rs"
  proof (rule Cons.IH)
    show "\<forall>r \<in> set rs. \<exists>k. toKey ?m1 r = Some k \<and> k \<noteq> []"
      using Cons.prems(1) by simp
    show "distinct (map (\<lambda>r. the (toKey ?m1 r)) rs)"
      using Cons.prems(2) by simp
    show "\<forall>r \<in> set rs. the (toKey ?m1 r) \<notin> fst ` set (store ?m1)"
      using Cons.prems(2,3) k by (auto simp: st1)
  qed
  then show ?case by (simp add: st1 k)
qed

lemma foldl_wf:
  "ResourceMap_wf (foldl (\<lambda>m r. ResourceMap_set m r v) (ResourceMap_new np cfg) rs)"
proof -
  have "ResourceMap_wf m \<Longrightarrow> ResourceMap_wf (foldl (\<lambda>m r. ResourceMap_set m r v) m rs)" for m
    by (induction rs arbitrary: m) (simp_all add: wf_set)
  then show ?thesis by (simp add: wf_new)
qed

lemma wf_entry_key:
  "ResourceMap_wf m \<Longrightarrow> x \<in> set (store m) \<Longrightarrow> toKey m (resource (snd x)) = Some (fst x) \<and> fst x \<noteq> []"
  by (auto simp: ResourceMap_wf_def)

lemma wf_keys_of_entries:
  assumes "ResourceMap_wf m"
  shows "map (\<lambda>e. the (toKey m (resource e))) (ResourceMap_entries m) = map fst (store m)"
  using wf_entry_key [OF assms] by (auto simp: ResourceMap_entries_def)

lemma wf_get_entry:
  assumes "ResourceMap_wf m" and "e \<in> set (ResourceMap_entries m)"
  shows "ResourceMap_get m (resource e) = Some (val e)"
proof -
  from assms(2) obtain k where in_store: "(k, e) \<in> set (store m)"
    by (auto simp: ResourceMap_entries_def)
  from wf_entry_key [OF assms(1) in_store] have k: "toKey m (resource e) = Some k" "k \<noteq> []"
    by simp_all
  from assms(1) have "distinct (map fst (store m))" by (simp add: ResourceMap_wf_def)
  with in_store have "map_of (store m) k = Some e" by simp
  with get_key [OF k] show ?thesis by simp
qed

lemma distinct_map_sort_key:
  "distinct (map f xs) \<Longrightarrow> distinct (map f (sort_key g xs))"
  by (simp add: distinct_map)

lemma new_like [simp]:
  "toKey (ResourceMap_new (normalizePath p) (config p)) = toKey p"
  by (rule ext, rule toKey_cong) (simp_all add: ResourceMap_new_def)

lemma getOrderedFileSet_store:
  assumes "ResourceMap_wf p"
  shows "store (getOrderedFileSet p)
           = map (\<lambda>e. (the (toKey p (resource e)), \<lparr>resource = resource e, val = ()\<rparr>))
               (sort_key val (ResourceMap_entries p))"
proof -
  let ?m0 = "ResourceMap_new (normalizePath p) (config p) :: unit ResourceMap"
  let ?rs = "map resource (sort_key val (ResourceMap_entries p))"
  have keys: "\<forall>r \<in> set ?rs. \<exists>k. toKey ?m0 r = Some k \<and> k \<noteq> []"
    using wf_entry_key [OF assms] by (auto simp: ResourceMap_entries_def)
  from assms have "distinct (map (\<lambda>e. the (toKey p (resource e))) (ResourceMap_entries p))"
    by (simp add: wf_keys_of_entries ResourceMap_wf_def)
  then have "distinct (map (\<lambda>e. the (toKey p (resource e))) (sort_key val (ResourceMap_entries p)))"
    by (rule distinct_map_sort_key)
  then have dist: "distinct (map (\<lambda>r. the (toKey ?m0 r)) ?rs)"
    by (simp add: comp_def)
  have fresh: "\<forall>r \<in> set ?rs. the (toKey ?m0 r) \<notin> fst ` set (store ?m0)"
    by (simp add: ResourceMap_new_def)
  have "store (getOrderedFileSet p)
          = store ?m0 @ map (\<lambda>r. (the (toKey ?m0 r), \<lparr>resource = r, val = ()\<rparr>)) ?rs"
    unfolding getOrderedFileSet_def Let_def by (rule foldl_set_store [OF keys dist fresh])
  then show ?thesis by (simp add: comp_def) (simp add: ResourceMap_new_def)
qed

text \<open>
  C5. For a pending-diagnostics map (a map as the operations build it),
  \<open>getOrderedFileSet\<close> returns a new set-valued map that iterates over the same resources
  in non-decreasing order of their stored timestamps, resources with equal timestamps in
  their insertion order.
\<close>

theorem getOrderedFileSet_by_age:
  assumes "ResourceMap_wf p"
  shows "map resource (ResourceMap_entries (getOrderedFileSet p))
           = map resource (sort_key val (ResourceMap_entries p))
       \<and> sorted (map (\<lambda>e. the (ResourceMap_get p (resource e)))
                     (ResourceMap_entries (getOrderedFileSet p)))
       \<and> (\<forall>t. filter (\<lambda>r. ResourceMap_get p r = Some t)
                   (map resource (ResourceMap_entries (getOrderedFileSet p)))
               = filter (\<lambda>r. ResourceMap_get p r = Some t)
                   (map resource (ResourceMap_entries p)))
       \<and> ResourceMap_size (getOrderedFileSet p) = ResourceMap_size p
       \<and> ResourceMap_wf (getOrderedFileSet p)"
  (is "?order \<and> ?sorted \<and> ?stable \<and> ?size \<and> ?wf")
proof -
  let ?es = "ResourceMap_entries p"
  note st = getOrderedFileSet_store [OF assms]
  have c1: ?order
    by (simp add: ResourceMap_entries_def st comp_def)
  have get: "ResourceMap_get p (resource e) = Some (val e)" if "e \<in> set (sort_key val ?es)" for e
    using that by (simp add: wf_get_entry [OF assms])
  have "map (\<lambda>e. the (ResourceMap_get p (resource e))) (ResourceMap_entries (getOrderedFileSet p))
          = map (\<lambda>e. the (ResourceMap_get p (resource e))) (sort_key val ?es)"
    by (simp add: ResourceMap_entries_def st comp_def)
  also have "\<dots> = map val (sort_key val ?es)"
    using get by (auto intro: map_cong)
  finally have c2: ?sorted by simp
  have c3: ?stable
  proof
    fix t
    have "filter (\<lambda>r. ResourceMap_get p r = Some t) (map resource (sort_key val ?es))
            = map resource (filter (\<lambda>e. val e = t) (sort_key val ?es))"
      using get by (auto simp: filter_map comp_def intro!: arg_cong [where f = "map resource"] filter_cong)
    also have "\<dots> = map resource (filter (\<lambda>e. val e = t) ?es)"
      by (simp add: sort_key_stable)
    also have "\<dots> = filter (\<lambda>r. ResourceMap_get p r = Some t) (map resource ?es)"
      using wf_get_entry [OF assms]
      by (auto simp: filter_map comp_def intro!: arg_cong [where f = "map resource"] filter_cong)
    finally show "filter (\<lambda>r. ResourceMap_get p r = Some t)
                   (map resource (ResourceMap_entries (getOrderedFileSet p)))
               = filter (\<lambda>r. ResourceMap_get p r = Some t)
                   (map resource (ResourceMap_entries p))"
      by (simp only: c1)
  qed
  have c4: ?size
    by (simp add: ResourceMap_size_def st ResourceMap_entries_def)
  have c5: ?wf
    unfolding getOrderedFileSet_def Let_def
    by (rule foldl_wf)
  show ?thesis by (intro conjI c1 c2 c3 c4 c5)
qed

theorem getOrderedFileSet_by_age_witness:
  "ResourceMap_wf
     (ResourceMap_run (ResourceMap_new examplePathNormalizer \<lparr>onCaseInsensitiveFileSystem = False\<rparr>)
        [OpSet (fileUri ''/A.ts'') (100::int), OpSet (fileUri ''/B.ts'') 200,
         OpSet (fileUri ''/C.ts'') 150])
   \<and> map resource (ResourceMap_entries (getOrderedFileSet
        (ResourceMap_run (ResourceMap_new examplePathNormalizer \<lparr>onCaseInsensitiveFileSystem = False\<rparr>)
           [OpSet (fileUri ''/A.ts'') (100::int), OpSet (fileUri ''/B.ts'') 200,
            OpSet (fileUri ''/C.ts'') 150])))
     = [fileUri ''/A.ts'', fileUri ''/C.ts'', fileUri ''/B.ts'']"
proof -
  let ?p = "ResourceMap_run (ResourceMap_new examplePathNormalizer \<lparr>onCaseInsensitiveFileSystem = False\<rparr>)
        [OpSet (fileUri ''/A.ts'') (100::int), OpSet (fileUri ''/B.ts'') 200,
         OpSet (fileUri ''/C.ts'') 150]"
  have wf: "ResourceMap_wf ?p" by (rule wf_reachable)
  have es: "ResourceMap_entries ?p
              = [\<lparr>resource = fileUri ''/A.ts'', val = 100\<rparr>, \<lparr>resource = fileUri ''/B.ts'', val = 200\<rparr>,
                 \<lparr>resource = fileUri ''/C.ts'', val = 150\<rparr>]"
    by (simp add: ResourceMap_run_def rm_defs key_defs fixture_defs)
  from getOrderedFileSet_by_age [OF wf]
  have "map resource (ResourceMap_entries (getOrderedFileSet ?p))
          = map resource (sort_key val (ResourceMap_entries ?p))"
    by (rule conjunct1)
  also have "\<dots> = [fileUri ''/A.ts'', fileUri ''/C.ts'', fileUri ''/B.ts'']"
    by (simp add: es)
  finally show ?thesis using wf by simp
qed

section \<open>Properties of the get-error request\<close>

lemma run_Cons: "GetErrRequest_run g (ev # evs) = GetErrRequest_run (GetErrRequest_step g ev) evs"
  by (simp add: GetErrRequest_run_def)

lemma run_Nil: "GetErrRequest_run g [] = g"
  by (simp add: GetErrRequest_run_def)

lemma settled_stable:
  "\<not> immediate_queued g \<Longrightarrow> done_flag g \<Longrightarrow>
   onDoneCalls (GetErrRequest_run g evs) = onDoneCalls g"
proof (induction evs arbitrary: g)
  case Nil
  then show ?case by (simp add: run_Nil)
next
  case (Cons ev evs)
  have "\<not> immediate_queued (GetErrRequest_step g ev) \<and> done_flag (GetErrRequest_step g ev)
        \<and> onDoneCalls (GetErrRequest_step g ev) = onDoneCalls g"
    using Cons.prems by (cases ev) (simp_all add: GetErrRequest_cancel_def)
  with Cons.IH [of "GetErrRequest_step g ev"] show ?case by (simp add: run_Cons)
qed

lemma early_path:
  "immediate_queued g \<Longrightarrow> done_flag g \<Longrightarrow> onDoneCalls g = 0 \<Longrightarrow>
   onDoneCalls (GetErrRequest_run g evs) = (if RunImmediate \<in> set evs then 1 else 0)"
proof (induction evs arbitrary: g)
  case Nil
  then show ?case by (simp add: run_Nil)
next
  case (Cons ev evs)
  show ?case
  proof (cases "ev = RunImmediate")
    case True
    have "\<not> immediate_queued (GetErrRequest_step g ev)" "done_flag (GetErrRequest_step g ev)"
      "onDoneCalls (GetErrRequest_step g ev) = 1"
      using Cons.prems True by simp_all
    with settled_stable [of "GetErrRequest_step g ev" evs] True show ?thesis
      by (simp add: run_Cons)
  next
    case False
    have "immediate_queued (GetErrRequest_step g ev)" "done_flag (GetErrRequest_step g ev)"
      "onDoneCalls (GetErrRequest_step g ev) = 0"
      using Cons.prems False by (cases ev; simp add: GetErrRequest_cancel_def)+
    from Cons.IH [OF this] False show ?thesis by (simp add: run_Cons)
  qed
qed

lemma request_path:
  "\<not> immediate_queued g \<Longrightarrow> \<not> done_flag g \<Longrightarrow> request_issued g \<Longrightarrow> onDoneCalls g = 0 \<Longrightarrow>
   onDoneCalls (GetErrRequest_run g evs) = (if RequestSettled \<in> set evs then 1 else 0)"
proof (induction evs arbitrary: g)
  case Nil
  then show ?case by (simp add: run_Nil)
next
  case (Cons ev evs)
  show ?case
  proof (cases "ev = RequestSettled")
    case True
    have "\<not> immediate_queued (GetErrRequest_step g ev)" "done_flag (GetErrRequest_step g ev)"
      "onDoneCalls (GetErrRequest_step g ev) = 1"
      using Cons.prems True by simp_all
    with settled_stable [of "GetErrRequest_step g ev" evs] True show ?thesis
      by (simp add: run_Cons)
  next
    case False
    have "\<not> immediate_queued (GetErrRequest_step g ev)" "\<not> done_flag (GetErrRequest_step g ev)"
      "request_issued (GetErrRequest_step g ev)" "onDoneCalls (GetErrRequest_step g ev) = 0"
      using Cons.prems False by (cases ev; simp add: GetErrRequest_cancel_def)+
    from Cons.IH [OF this] False show ?thesis by (simp add: run_Cons)
  qed
qed

lemma constructed_shape:
  "(immediate_queued (fst (executeGetErrRequest c fs)) \<and> done_flag (fst (executeGetErrRequest c fs))
      \<and> onDoneCalls (fst (executeGetErrRequest c fs)) = 0)
   \<or> (\<not> immediate_queued (fst (executeGetErrRequest c fs))
      \<and> \<not> done_flag (fst (executeGetErrRequest c fs))
      \<and> request_issued (fst (executeGetErrRequest c fs))
      \<and> onDoneCalls (fst (executeGetErrRequest c fs)) = 0)"
  by (simp add: executeGetErrRequest_def GetErrRequest_init_def split: list.splits)

lemma cancel_idem: "GetErrRequest_cancel (GetErrRequest_cancel g) = GetErrRequest_cancel g"
  by (simp add: GetErrRequest_cancel_def)

text \<open>
  C4. Over the lifetime of a request, whatever is interleaved (any number of \<open>cancel\<close>
  calls, the settling of the back-end request by success, failure or cancellation, the
  queued callback of the two early paths), \<open>onDone\<close> has been called once as soon as the
  request's completion event has happened and not before, and never a second time;
  \<open>cancel\<close> is idempotent and calls nothing.
\<close>

theorem onDone_exactly_once:
  "onDoneCalls (GetErrRequest_run (fst (executeGetErrRequest c fs)) evs)
     = (if completion (fst (executeGetErrRequest c fs)) \<in> set evs then 1 else 0)
   \<and> onDoneCalls (fst (executeGetErrRequest c fs)) = 0
   \<and> (\<not> isErrorReportingEnabled c \<or> getErr_allFiles c fs = []
        \<longleftrightarrow> completion (fst (executeGetErrRequest c fs)) = RunImmediate)
   \<and> GetErrRequest_cancel (GetErrRequest_cancel g) = GetErrRequest_cancel g
   \<and> onDoneCalls (GetErrRequest_cancel g) = onDoneCalls g"
proof -
  let ?g = "fst (executeGetErrRequest c fs)"
  have calls: "onDoneCalls (GetErrRequest_run ?g evs) = (if completion ?g \<in> set evs then 1 else 0)"
    using constructed_shape [of c fs]
  proof
    assume "immediate_queued ?g \<and> done_flag ?g \<and> onDoneCalls ?g = 0"
    then show ?thesis using early_path [of ?g evs] by (simp add: completion_def)
  next
    assume "\<not> immediate_queued ?g \<and> \<not> done_flag ?g \<and> request_issued ?g \<and> onDoneCalls ?g = 0"
    then show ?thesis using request_path [of ?g evs] by (simp add: completion_def)
  qed
  have zero: "onDoneCalls ?g = 0"
    using constructed_shape [of c fs] by blast
  have path: "(\<not> isErrorReportingEnabled c \<or> getErr_allFiles c fs = [])
                \<longleftrightarrow> completion ?g = RunImmediate"
    by (simp add: executeGetErrRequest_def GetErrRequest_init_def completion_def split: list.splits)
  have same: "onDoneCalls (GetErrRequest_cancel g) = onDoneCalls g"
    by (simp add: GetErrRequest_cancel_def)
  from calls zero path same cancel_idem [of g] show ?thesis by simp
qed

lemmas getErr_eval_defs = executeGetErrRequest_def isErrorReportingEnabled_def
  areProjectDiagnosticsEnabled_def getErr_allFiles_def GetErrRequest_init_def completion_def
  API_gte_def API_v440_def Client_execute_def

theorem onDone_exactly_once_witness:
  "onDoneCalls (GetErrRequest_run
      (fst (executeGetErrRequest (exampleClient (5, 0, 0) False)
              (ResourceMap_set
                 (ResourceMap_new examplePathNormalizer \<lparr>onCaseInsensitiveFileSystem = False\<rparr>)
                 (fileUri ''/a.ts'') ())))
      [Cancel, RequestSettled, Cancel, RequestSettled]) = 1
   \<and> executed (snd (executeGetErrRequest (exampleClient (5, 0, 0) False)
              (ResourceMap_set
                 (ResourceMap_new examplePathNormalizer \<lparr>onCaseInsensitiveFileSystem = False\<rparr>)
                 (fileUri ''/a.ts'') ())))
       = [Cmd_Geterr [''/a.ts'']]
   \<and> onDoneCalls (GetErrRequest_run
      (fst (executeGetErrRequest (exampleClient (5, 0, 0) False)
              (ResourceMap_new examplePathNormalizer \<lparr>onCaseInsensitiveFileSystem = False\<rparr>)))
      [Cancel, RunImmediate, Cancel]) = 1
   \<and> onDoneCalls (GetErrRequest_run
      (fst (executeGetErrRequest (exampleClient (5, 0, 0) False)
              (ResourceMap_new examplePathNormalizer \<lparr>onCaseInsensitiveFileSystem = False\<rparr>)))
      [Cancel, Cancel]) = 0"
proof -
  let ?c = "exampleClient (5, 0, 0) False"
  let ?empty = "ResourceMap_new examplePathNormalizer \<lparr>onCaseInsensitiveFileSystem = False\<rparr>
                  :: unit ResourceMap"
  let ?fs = "ResourceMap_set ?empty (fileUri ''/a.ts'') ()"
  have request: "completion (fst (executeGetErrRequest ?c ?fs)) = RequestSettled"
    by (simp add: getErr_eval_defs rm_defs key_defs fixture_defs)
  have sent: "executed (snd (executeGetErrRequest ?c ?fs)) = [Cmd_Geterr [''/a.ts'']]"
    by (simp add: getErr_eval_defs rm_defs key_defs fixture_defs)
  have early: "completion (fst (executeGetErrRequest ?c ?empty)) = RunImmediate"
    by (simp add: getErr_eval_defs rm_defs key_defs fixture_defs)
  from onDone_exactly_once [of ?c ?fs "[Cancel, RequestSettled, Cancel, RequestSettled]"] request
  have a: "onDoneCalls (GetErrRequest_run (fst (executeGetErrRequest ?c ?fs))
             [Cancel, RequestSettled, Cancel, RequestSettled]) = 1"
    by simp
  from onDone_exactly_once [of ?c ?empty "[Cancel, RunImmediate, Cancel]"] early
  have b: "onDoneCalls (GetErrRequest_run (fst (executeGetErrRequest ?c ?empty))
             [Cancel, RunImmediate, Cancel]) = 1"
    by simp
  from onDone_exactly_once [of ?c ?empty "[Cancel, Cancel]"] early
  have c: "onDoneCalls (GetErrRequest_run (fst (executeGetErrRequest ?c ?empty))
             [Cancel, Cancel]) = 0"
    by simp
  from a sent b c show ?thesis by (intro conjI)
qed

section \<open>Properties of the tab resource tracker\<close>

lemma not_resolvable: "\<not> resolvable m u \<Longrightarrow> toKey m u = None \<or> toKey m u = Some []"
  by (cases "toKey m u") (auto simp: resolvable_def)

lemma has_resolvable: "ResourceMap_has m u \<Longrightarrow> resolvable m u"
  by (auto simp: ResourceMap_has_def resolvable_def falsy_def Let_def split: option.splits)

lemma has_set_iff:
  assumes "toKey m u = Some k" and "k \<noteq> []"
  shows "ResourceMap_has (ResourceMap_set m u v) x \<longleftrightarrow> ResourceMap_has m x \<or> toKey m x = Some k"
proof (cases "resolvable m x")
  case True
  then obtain kx where kx: "toKey m x = Some kx" "kx \<noteq> []" by (auto simp: resolvable_def)
  then have kx': "toKey (ResourceMap_set m u v) x = Some kx" by simp
  show ?thesis
    by (simp add: has_key [OF kx'] has_key [OF kx] set_key [OF assms] update_conv' kx)
next
  case False
  with has_resolvable [of m x] has_resolvable [of "ResourceMap_set m u v" x] assms
  show ?thesis by (auto simp: resolvable_def)
qed

lemma has_delete_iff:
  assumes "toKey m u = Some k" and "k \<noteq> []"
  shows "ResourceMap_has (ResourceMap_delete m u) x \<longleftrightarrow> ResourceMap_has m x \<and> toKey m x \<noteq> Some k"
proof (cases "resolvable m x")
  case True
  then obtain kx where kx: "toKey m x = Some kx" "kx \<noteq> []" by (auto simp: resolvable_def)
  then have kx': "toKey (ResourceMap_delete m u) x = Some kx" by simp
  show ?thesis
    by (auto simp: has_key [OF kx'] has_key [OF kx] delete_key [OF assms] delete_conv' kx)
next
  case False
  with has_resolvable [of m x] has_resolvable [of "ResourceMap_delete m u" x]
  show ?thesis by (auto simp: resolvable_def)
qed

lemma get_Some_entry:
  assumes "ResourceMap_get m u = Some v"
  obtains k e where "toKey m u = Some k" "k \<noteq> []" "(k, e) \<in> set (store m)" "val e = v"
proof -
  from assms obtain k e where "toKey m u = Some k" "k \<noteq> []" "map_of (store m) k = Some e" "val e = v"
    by (rule get_Some_key)
  moreover from this have "(k, e) \<in> set (store m)" by (simp add: map_of_SomeD)
  ultimately show ?thesis using that by blast
qed

text \<open>The tracker's \<open>has\<close> on a tracker whose entries all have tabs.\<close>

lemma tracker_has_iff:
  assumes "TabResourceTracker_inv t"
  shows "TabResourceTracker_has t u = ResourceMap_has (tabResources t) u"
proof (cases "ResourceMap_get (tabResources t) u")
  case None
  then show ?thesis
    using get_eq_None_iff_not_has [of "tabResources t" u] by (simp add: TabResourceTracker_has_def)
next
  case (Some entry)
  then obtain k e where "(k, e) \<in> set (store (tabResources t))" "val e = entry"
    by (rule get_Some_entry)
  with assms have "tabs entry \<noteq> []" by (auto simp: TabResourceTracker_inv_def)
  with Some get_Some_has [OF Some] show ?thesis by (simp add: TabResourceTracker_has_def)
qed

lemma inv_set:
  assumes "TabResourceTracker_inv t" and "tabs v \<noteq> []"
  shows "TabResourceTracker_inv (t\<lparr>tabResources := ResourceMap_set (tabResources t) u v\<rparr>)"
proof (cases "resolvable (tabResources t) u")
  case True
  then obtain k where k: "toKey (tabResources t) u = Some k" "k \<noteq> []" by (auto simp: resolvable_def)
  define e' where "e' = (case map_of (store (tabResources t)) k of
                           None \<Rightarrow> \<lparr>resource = u, val = v\<rparr>
                         | Some e \<Rightarrow> e\<lparr>val := v\<rparr>)"
  have st: "store (ResourceMap_set (tabResources t) u v) = AList.update k e' (store (tabResources t))"
    unfolding e'_def by (rule set_key [OF k])
  have v: "val e' = v" by (simp add: e'_def split: option.splits)
  have "tabs (val (snd x)) \<noteq> []"
    if "x \<in> set (store (ResourceMap_set (tabResources t) u v))" for x
  proof -
    from that have "x = (k, e') \<or> x \<in> set (store (tabResources t))"
      unfolding st by (rule in_update_cases)
    with assms v show ?thesis by (auto simp: TabResourceTracker_inv_def)
  qed
  then show ?thesis by (simp add: TabResourceTracker_inv_def)
next
  case False
  from unresolved_key(3) [OF not_resolvable [OF False]] assms(1) show ?thesis
    by (simp add: TabResourceTracker_inv_def)
qed

lemma inv_delete:
  assumes "TabResourceTracker_inv (t\<lparr>tabResources := m\<rparr>)"
  shows "TabResourceTracker_inv (t\<lparr>tabResources := ResourceMap_delete m u\<rparr>)"
proof (cases "resolvable m u")
  case True
  then obtain k where k: "toKey m u = Some k" "k \<noteq> []" by (auto simp: resolvable_def)
  have "set (AList.delete k (store m)) \<subseteq> set (store m)"
    by (auto simp: AList.delete_eq)
  with assms show ?thesis
    by (auto simp: TabResourceTracker_inv_def delete_key [OF k])
next
  case False
  from unresolved_key(4) [OF not_resolvable [OF False]] assms show ?thesis by simp
qed


subsection \<open>One round of add\<close>

lemma add_step_props:
  assumes "add_step tab (t, acc) u = (t', acc')"
  shows "acc' = (if ResourceMap_has (tabResources t) u then acc else acc @ [u])"
    and "toKey (tabResources t') = toKey (tabResources t)"
    and "ResourceMap_has (tabResources t') x
           \<longleftrightarrow> ResourceMap_has (tabResources t) x
               \<or> (resolvable (tabResources t) u \<and> toKey (tabResources t) x = toKey (tabResources t) u)"
    and "TabResourceTracker_inv t \<Longrightarrow> TabResourceTracker_inv t'"
proof -
  let ?m = "tabResources t"
  obtain v where t': "t' = t\<lparr>tabResources := ResourceMap_set ?m u v\<rparr>" and v: "tabs v \<noteq> []"
    and acc': "acc' = (if ResourceMap_has ?m u then acc else acc @ [u])"
  proof (cases "ResourceMap_get ?m u")
    case None
    with assms have "t' = t\<lparr>tabResources := ResourceMap_set ?m u \<lparr>tabs = [tab]\<rparr>\<rparr>" "acc' = acc @ [u]"
      by (auto simp: add_step_def)
    moreover from None have "\<not> ResourceMap_has ?m u" by (simp add: get_eq_None_iff_not_has)
    ultimately show ?thesis using that [of "\<lparr>tabs = [tab]\<rparr>"] by simp
  next
    case (Some entry)
    with assms have "t' = t\<lparr>tabResources := ResourceMap_set ?m u (entry\<lparr>tabs := Set_add tab (tabs entry)\<rparr>)\<rparr>"
      "acc' = acc"
      by (auto simp: add_step_def)
    moreover have "Set_add tab (tabs entry) \<noteq> []" by (auto simp: Set_add_def)
    moreover from Some have "ResourceMap_has ?m u" by (rule get_Some_has)
    ultimately show ?thesis using that [of "entry\<lparr>tabs := Set_add tab (tabs entry)\<rparr>"] by simp
  qed
  show "acc' = (if ResourceMap_has ?m u then acc else acc @ [u])" by (rule acc')
  show "toKey (tabResources t') = toKey ?m" by (simp add: t')
  show "ResourceMap_has (tabResources t') x
           \<longleftrightarrow> ResourceMap_has ?m x \<or> (resolvable ?m u \<and> toKey ?m x = toKey ?m u)"
  proof (cases "resolvable ?m u")
    case True
    then obtain k where k: "toKey ?m u = Some k" "k \<noteq> []" by (auto simp: resolvable_def)
    show ?thesis using True by (simp add: t' has_set_iff [OF k] k)
  next
    case False
    from unresolved_key(3) [OF not_resolvable [OF False]] False show ?thesis by (simp add: t')
  qed
  show "TabResourceTracker_inv t'" if "TabResourceTracker_inv t"
    unfolding t' by (rule inv_set [OF that v])
qed

subsection \<open>One round of delete\<close>

lemma delete_step_props:
  assumes "delete_step tab (t, acc) u = (t', acc')"
  shows "acc' = acc \<or> (acc' = acc @ [u] \<and> ResourceMap_has (tabResources t) u
                          \<and> \<not> ResourceMap_has (tabResources t') u)"
    and "toKey (tabResources t') = toKey (tabResources t)"
    and "ResourceMap_has (tabResources t') x \<Longrightarrow> ResourceMap_has (tabResources t) x"
    and "TabResourceTracker_inv t \<Longrightarrow> TabResourceTracker_inv t'"
proof -
  let ?m = "tabResources t"
  show "acc' = acc \<or> (acc' = acc @ [u] \<and> ResourceMap_has ?m u \<and> \<not> ResourceMap_has (tabResources t') u)"
  proof (cases "ResourceMap_get ?m u")
    case None
    with assms show ?thesis by (simp add: delete_step_def)
  next
    case (Some entry)
    let ?m1 = "ResourceMap_set ?m u (entry\<lparr>tabs := Set_delete tab (tabs entry)\<rparr>)"
    show ?thesis
    proof (cases "Set_delete tab (tabs entry) = []")
      case True
      with Some assms have "t' = t\<lparr>tabResources := ResourceMap_delete ?m1 u\<rparr>" "acc' = acc @ [u]"
        by (auto simp: delete_step_def Let_def)
      with get_Some_has [OF Some] has_delete_same [of ?m1 u] show ?thesis by simp
    next
      case False
      with Some assms have "acc' = acc" by (auto simp: delete_step_def Let_def)
      then show ?thesis by simp
    qed
  qed
  show "toKey (tabResources t') = toKey ?m"
    using assms by (auto simp: delete_step_def Let_def split: option.splits if_splits)
  show "ResourceMap_has (tabResources t') x \<Longrightarrow> ResourceMap_has ?m x"
  proof (cases "ResourceMap_get ?m u")
    case None
    assume "ResourceMap_has (tabResources t') x"
    with None assms show ?thesis by (simp add: delete_step_def)
  next
    case (Some entry)
    assume h: "ResourceMap_has (tabResources t') x"
    from Some obtain k e where k: "toKey ?m u = Some k" "k \<noteq> []" "map_of (store ?m) k = Some e"
      by (rule get_Some_key)
    then have hasu: "ResourceMap_has ?m u" by (simp add: has_key)
    let ?m1 = "ResourceMap_set ?m u (entry\<lparr>tabs := Set_delete tab (tabs entry)\<rparr>)"
    have k1: "toKey ?m1 u = Some k" using k by simp
    have m1: "ResourceMap_has ?m x" if "ResourceMap_has ?m1 x"
    proof -
      from that have "ResourceMap_has ?m x \<or> toKey ?m x = Some k"
        by (simp add: has_set_iff [OF k(1,2)])
      moreover have "ResourceMap_has ?m x" if "toKey ?m x = Some k"
        using that k by (simp add: has_key)
      ultimately show ?thesis by blast
    qed
    from Some assms
    consider "t' = t\<lparr>tabResources := ResourceMap_delete ?m1 u\<rparr>" | "t' = t\<lparr>tabResources := ?m1\<rparr>"
      by (auto simp: delete_step_def Let_def split: if_splits)
    then show ?thesis
    proof cases
      case 1
      with h have "ResourceMap_has (ResourceMap_delete ?m1 u) x" by simp
      then have "ResourceMap_has ?m1 x" by (simp add: has_delete_iff [OF k1 k(2)])
      then show ?thesis by (rule m1)
    next
      case 2
      with h have "ResourceMap_has ?m1 x" by simp
      then show ?thesis by (rule m1)
    qed
  qed
  show "TabResourceTracker_inv t'" if inv: "TabResourceTracker_inv t"
  proof (cases "ResourceMap_get ?m u")
    case None
    with assms inv show ?thesis by (simp add: delete_step_def)
  next
    case (Some entry)
    let ?m1 = "ResourceMap_set ?m u (entry\<lparr>tabs := Set_delete tab (tabs entry)\<rparr>)"
    from Some obtain k e where k: "toKey ?m u = Some k" "k \<noteq> []" "map_of (store ?m) k = Some e"
      by (rule get_Some_key)
    then have k1: "toKey ?m1 u = Some k" by simp
    show ?thesis
    proof (cases "Set_delete tab (tabs entry) = []")
      case True
      with Some assms have t': "t' = t\<lparr>tabResources := ResourceMap_delete ?m1 u\<rparr>"
        by (auto simp: delete_step_def Let_def)
      have "store (ResourceMap_delete ?m1 u) = AList.delete k (store ?m)"
        by (simp add: delete_key [OF k1 k(2)] set_key [OF k(1,2)] delete_update_same)
      moreover have "set (AList.delete k (store ?m)) \<subseteq> set (store ?m)"
        by (auto simp: AList.delete_eq)
      ultimately show ?thesis using inv by (auto simp: t' TabResourceTracker_inv_def)
    next
      case False
      with Some assms have t': "t' = t\<lparr>tabResources := ?m1\<rparr>"
        by (auto simp: delete_step_def Let_def)
      show ?thesis unfolding t' by (rule inv_set [OF inv]) (simp add: False)
    qed
  qed
qed


subsection \<open>The loops\<close>

lemma resolvable_cong:
  "toKey m' = toKey m \<Longrightarrow> resolvable m' u = resolvable m u"
  by (simp add: resolvable_def)

lemma add_fold:
  "foldl (add_step tab) (t, acc) us = (t', acc') \<Longrightarrow>
   toKey (tabResources t') = toKey (tabResources t)
   \<and> (\<forall>x. ResourceMap_has (tabResources t) x \<longrightarrow> ResourceMap_has (tabResources t') x)
   \<and> (\<exists>new. acc' = acc @ new
          \<and> (\<forall>u \<in> set new. \<not> ResourceMap_has (tabResources t) u
                \<and> (resolvable (tabResources t) u \<longrightarrow> ResourceMap_has (tabResources t') u)))
   \<and> (TabResourceTracker_inv t \<longrightarrow> TabResourceTracker_inv t')"
proof (induction us arbitrary: t acc)
  case Nil
  then show ?case by simp
next
  case (Cons u us)
  obtain t1 acc1 where s1: "add_step tab (t, acc) u = (t1, acc1)" by (cases "add_step tab (t, acc) u")
  with Cons.prems have "foldl (add_step tab) (t1, acc1) us = (t', acc')" by simp
  from Cons.IH [OF this]
  have key: "toKey (tabResources t') = toKey (tabResources t1)"
    and mono: "\<And>x. ResourceMap_has (tabResources t1) x \<Longrightarrow> ResourceMap_has (tabResources t') x"
    and inv: "TabResourceTracker_inv t1 \<Longrightarrow> TabResourceTracker_inv t'"
    and "\<exists>new. acc' = acc1 @ new
          \<and> (\<forall>u \<in> set new. \<not> ResourceMap_has (tabResources t1) u
                \<and> (resolvable (tabResources t1) u \<longrightarrow> ResourceMap_has (tabResources t') u))"
    by blast+
  then obtain new1 where new1: "acc' = acc1 @ new1"
    and rep1: "\<And>v. v \<in> set new1 \<Longrightarrow> \<not> ResourceMap_has (tabResources t1) v
                \<and> (resolvable (tabResources t1) v \<longrightarrow> ResourceMap_has (tabResources t') v)"
    by blast
  note p = add_step_props [OF s1]
  have mono1: "ResourceMap_has (tabResources t1) x" if "ResourceMap_has (tabResources t) x" for x
    using that by (simp add: p(3))
  have res: "resolvable (tabResources t1) v = resolvable (tabResources t) v" for v
    by (rule resolvable_cong [OF p(2)])
  let ?new = "(if ResourceMap_has (tabResources t) u then [] else [u]) @ new1"
  have "acc' = acc @ ?new" by (simp add: new1 p(1))
  moreover have "\<not> ResourceMap_has (tabResources t) v
                \<and> (resolvable (tabResources t) v \<longrightarrow> ResourceMap_has (tabResources t') v)"
    if "v \<in> set ?new" for v
  proof (cases "v \<in> set new1")
    case True
    from rep1 [OF True] mono1 [of v] show ?thesis by (auto simp: res)
  next
    case False
    with that have v: "v = u" "\<not> ResourceMap_has (tabResources t) u" by (auto split: if_splits)
    have "ResourceMap_has (tabResources t') u" if "resolvable (tabResources t) u"
      using that by (intro mono) (simp add: p(3))
    with v show ?thesis by simp
  qed
  ultimately have "\<exists>new. acc' = acc @ new
          \<and> (\<forall>u \<in> set new. \<not> ResourceMap_has (tabResources t) u
                \<and> (resolvable (tabResources t) u \<longrightarrow> ResourceMap_has (tabResources t') u))"
    by blast
  moreover have "toKey (tabResources t') = toKey (tabResources t)" by (simp add: key p(2))
  moreover have "\<forall>x. ResourceMap_has (tabResources t) x \<longrightarrow> ResourceMap_has (tabResources t') x"
    using mono mono1 by blast
  moreover have "TabResourceTracker_inv t \<longrightarrow> TabResourceTracker_inv t'"
    using inv p(4) by blast
  ultimately show ?case by blast
qed

lemma delete_fold:
  "foldl (delete_step tab) (t, acc) us = (t', acc') \<Longrightarrow>
   toKey (tabResources t') = toKey (tabResources t)
   \<and> (\<forall>x. ResourceMap_has (tabResources t') x \<longrightarrow> ResourceMap_has (tabResources t) x)
   \<and> (\<exists>new. acc' = acc @ new
          \<and> (\<forall>u \<in> set new. ResourceMap_has (tabResources t) u
                \<and> \<not> ResourceMap_has (tabResources t') u))
   \<and> (TabResourceTracker_inv t \<longrightarrow> TabResourceTracker_inv t')"
proof (induction us arbitrary: t acc)
  case Nil
  then show ?case by simp
next
  case (Cons u us)
  obtain t1 acc1 where s1: "delete_step tab (t, acc) u = (t1, acc1)"
    by (cases "delete_step tab (t, acc) u")
  with Cons.prems have "foldl (delete_step tab) (t1, acc1) us = (t', acc')" by simp
  from Cons.IH [OF this]
  have key: "toKey (tabResources t') = toKey (tabResources t1)"
    and mono: "\<And>x. ResourceMap_has (tabResources t') x \<Longrightarrow> ResourceMap_has (tabResources t1) x"
    and inv: "TabResourceTracker_inv t1 \<Longrightarrow> TabResourceTracker_inv t'"
    and "\<exists>new. acc' = acc1 @ new
          \<and> (\<forall>u \<in> set new. ResourceMap_has (tabResources t1) u
                \<and> \<not> ResourceMap_has (tabResources t') u)"
    by blast+
  then obtain new1 where new1: "acc' = acc1 @ new1"
    and rep1: "\<And>v. v \<in> set new1 \<Longrightarrow> ResourceMap_has (tabResources t1) v
                \<and> \<not> ResourceMap_has (tabResources t') v"
    by blast
  note p = delete_step_props [OF s1]
  from p(1) obtain first where first: "acc1 = acc @ first"
    and rep0: "\<And>v. v \<in> set first \<Longrightarrow> ResourceMap_has (tabResources t) v
                \<and> \<not> ResourceMap_has (tabResources t1) v"
  proof
    assume "acc1 = acc"
    then show ?thesis using that [of "[]"] by simp
  next
    assume "acc1 = acc @ [u] \<and> ResourceMap_has (tabResources t) u
              \<and> \<not> ResourceMap_has (tabResources t1) u"
    then show ?thesis using that [of "[u]"] by simp
  qed
  have "acc' = acc @ (first @ new1)" by (simp add: new1 first)
  moreover have "ResourceMap_has (tabResources t) v \<and> \<not> ResourceMap_has (tabResources t') v"
    if "v \<in> set (first @ new1)" for v
  proof (cases "v \<in> set new1")
    case True
    from rep1 [OF True] p(3) [of v] show ?thesis by blast
  next
    case False
    with that have "v \<in> set first" by simp
    from rep0 [OF this] mono [of v] show ?thesis by blast
  qed
  ultimately have "\<exists>new. acc' = acc @ new
          \<and> (\<forall>u \<in> set new. ResourceMap_has (tabResources t) u
                \<and> \<not> ResourceMap_has (tabResources t') u)"
    by blast
  moreover have "toKey (tabResources t') = toKey (tabResources t)" by (simp add: key p(2))
  moreover have "\<forall>x. ResourceMap_has (tabResources t') x \<longrightarrow> ResourceMap_has (tabResources t) x"
    using mono p(3) by blast
  moreover have "TabResourceTracker_inv t \<longrightarrow> TabResourceTracker_inv t'"
    using inv p(4) by blast
  ultimately show ?case by blast
qed

lemma add_props:
  shows "\<forall>u \<in> set (snd (TabResourceTracker_add t tab)).
           \<not> ResourceMap_has (tabResources t) u
           \<and> (resolvable (tabResources t) u
                \<longrightarrow> ResourceMap_has (tabResources (fst (TabResourceTracker_add t tab))) u)"
    and "TabResourceTracker_inv t \<Longrightarrow> TabResourceTracker_inv (fst (TabResourceTracker_add t tab))"
  using add_fold [of tab t "[]" "getResourcesForTab tab"
      "fst (TabResourceTracker_add t tab)" "snd (TabResourceTracker_add t tab)"]
  by (auto simp: TabResourceTracker_add_def)

lemma delete_props:
  shows "\<forall>u \<in> set (snd (TabResourceTracker_delete t tab)).
           ResourceMap_has (tabResources t) u
           \<and> \<not> ResourceMap_has (tabResources (fst (TabResourceTracker_delete t tab))) u"
    and "TabResourceTracker_inv t \<Longrightarrow> TabResourceTracker_inv (fst (TabResourceTracker_delete t tab))"
  using delete_fold [of tab t "[]" "getResourcesForTab tab"
      "fst (TabResourceTracker_delete t tab)" "snd (TabResourceTracker_delete t tab)"]
  by (auto simp: TabResourceTracker_delete_def)

lemma inv_new: "TabResourceTracker_inv (TabResourceTracker_new np cfg)"
  by (simp add: TabResourceTracker_inv_def TabResourceTracker_new_def ResourceMap_new_def)

lemma inv_run: "TabResourceTracker_inv t \<Longrightarrow> TabResourceTracker_inv (TabResourceTracker_run t ops)"
  unfolding TabResourceTracker_run_def
proof (induction ops arbitrary: t)
  case Nil
  then show ?case by simp
next
  case (Cons opn ops)
  have "TabResourceTracker_inv (TabResourceTracker_apply t opn)"
    using Cons.prems by (cases opn) (simp_all add: add_props(2) delete_props(2))
  from Cons.IH [OF this] show ?case by simp
qed

lemmas tracker_defs = TabResourceTracker_new_def TabResourceTracker_add_def add_step_def
  TabResourceTracker_delete_def delete_step_def TabResourceTracker_has_def Set_add_def
  Set_delete_def TabResourceTracker_run_def

text \<open>
  A tab on a URI the path normaliser cannot resolve: \<open>add\<close> reports the URI as newly
  opened, and the map is as empty as before.
\<close>

theorem add_reports_unresolvable_uri:
  "snd (TabResourceTracker_add
          (TabResourceTracker_new examplePathNormalizer \<lparr>onCaseInsensitiveFileSystem = False\<rparr>)
          \<lparr>tab_id = 1, input = TabInputText (untitledUri ''Untitled-1'')\<rparr>)
     = [untitledUri ''Untitled-1'']
   \<and> \<not> TabResourceTracker_has
         (fst (TabResourceTracker_add
                 (TabResourceTracker_new examplePathNormalizer \<lparr>onCaseInsensitiveFileSystem = False\<rparr>)
                 \<lparr>tab_id = 1, input = TabInputText (untitledUri ''Untitled-1'')\<rparr>))
         (untitledUri ''Untitled-1'')
   \<and> ResourceMap_size (tabResources
         (fst (TabResourceTracker_add
                 (TabResourceTracker_new examplePathNormalizer \<lparr>onCaseInsensitiveFileSystem = False\<rparr>)
                 \<lparr>tab_id = 1, input = TabInputText (untitledUri ''Untitled-1'')\<rparr>))) = 0"
  by (simp add: tracker_defs rm_defs key_defs fixture_defs)

text \<open>
  C9, amended. After any run of \<open>add\<close> and \<open>delete\<close> calls, every entry of the tracker's
  map has a non-empty tab set, so \<open>has\<close> is membership in the map. \<open>add\<close> reports a URI
  only when it was absent before the call, and a reported URI that the map can file is
  present afterwards; \<open>delete\<close> reports a URI only when it was present before the call,
  and it is absent afterwards.
\<close>

theorem tab_tracker_nonempty_tab_sets:
  assumes "t = TabResourceTracker_run (TabResourceTracker_new np cfg) ops"
  shows "(\<forall>e \<in> set (ResourceMap_entries (tabResources t)). tabs (val e) \<noteq> [])
       \<and> (\<forall>u. TabResourceTracker_has t u = ResourceMap_has (tabResources t) u)
       \<and> (\<forall>tab. \<forall>u \<in> set (snd (TabResourceTracker_add t tab)).
             \<not> TabResourceTracker_has t u
             \<and> (resolvable (tabResources t) u
                  \<longrightarrow> TabResourceTracker_has (fst (TabResourceTracker_add t tab)) u))
       \<and> (\<forall>tab. \<forall>u \<in> set (snd (TabResourceTracker_delete t tab)).
             TabResourceTracker_has t u
             \<and> \<not> TabResourceTracker_has (fst (TabResourceTracker_delete t tab)) u)"
  (is "?nonempty \<and> ?has \<and> ?add \<and> ?delete")
proof -
  have inv: "TabResourceTracker_inv t"
    unfolding assms by (rule inv_run [OF inv_new])
  have c1: ?nonempty
    using inv by (auto simp: TabResourceTracker_inv_def ResourceMap_entries_def)
  have c2: ?has
    using tracker_has_iff [OF inv] by blast
  have c3: ?add
  proof (intro allI ballI)
    fix tab u
    assume u: "u \<in> set (snd (TabResourceTracker_add t tab))"
    have inv': "TabResourceTracker_inv (fst (TabResourceTracker_add t tab))"
      by (rule add_props(2) [OF inv])
    from add_props(1) [of t tab] u
    have "\<not> ResourceMap_has (tabResources t) u
           \<and> (resolvable (tabResources t) u
                \<longrightarrow> ResourceMap_has (tabResources (fst (TabResourceTracker_add t tab))) u)"
      by blast
    then show "\<not> TabResourceTracker_has t u
             \<and> (resolvable (tabResources t) u
                  \<longrightarrow> TabResourceTracker_has (fst (TabResourceTracker_add t tab)) u)"
      by (simp add: tracker_has_iff [OF inv] tracker_has_iff [OF inv'])
  qed
  have c4: ?delete
  proof (intro allI ballI)
    fix tab u
    assume u: "u \<in> set (snd (TabResourceTracker_delete t tab))"
    have inv': "TabResourceTracker_inv (fst (TabResourceTracker_delete t tab))"
      by (rule delete_props(2) [OF inv])
    from delete_props(1) [of t tab] u
    have "ResourceMap_has (tabResources t) u
           \<and> \<not> ResourceMap_has (tabResources (fst (TabResourceTracker_delete t tab))) u"
      by blast
    then show "TabResourceTracker_has t u
             \<and> \<not> TabResourceTracker_has (fst (TabResourceTracker_delete t tab)) u"
      by (simp add: tracker_has_iff [OF inv] tracker_has_iff [OF inv'])
  qed
  show ?thesis by (intro conjI c1 c2 c3 c4)
qed

theorem tab_tracker_nonempty_tab_sets_witness:
  "snd (TabResourceTracker_add
          (TabResourceTracker_run
             (TabResourceTracker_new examplePathNormalizer \<lparr>onCaseInsensitiveFileSystem = False\<rparr>)
             [AddTab \<lparr>tab_id = 1, input = TabInputText (fileUri ''/x.ts'')\<rparr>])
          \<lparr>tab_id = 2, input = TabInputTextDiff (fileUri ''/x.ts'') (fileUri ''/y.ts'')\<rparr>)
     = [fileUri ''/y.ts'']
   \<and> \<not> TabResourceTracker_has
         (TabResourceTracker_run
            (TabResourceTracker_new examplePathNormalizer \<lparr>onCaseInsensitiveFileSystem = False\<rparr>)
            [AddTab \<lparr>tab_id = 1, input = TabInputText (fileUri ''/x.ts'')\<rparr>])
         (fileUri ''/y.ts'')
   \<and> TabResourceTracker_has
         (fst (TabResourceTracker_add
            (TabResourceTracker_run
               (TabResourceTracker_new examplePathNormalizer \<lparr>onCaseInsensitiveFileSystem = False\<rparr>)
               [AddTab \<lparr>tab_id = 1, input = TabInputText (fileUri ''/x.ts'')\<rparr>])
            \<lparr>tab_id = 2, input = TabInputTextDiff (fileUri ''/x.ts'') (fileUri ''/y.ts'')\<rparr>))
         (fileUri ''/y.ts'')
   \<and> snd (TabResourceTracker_delete
          (TabResourceTracker_run
             (TabResourceTracker_new examplePathNormalizer \<lparr>onCaseInsensitiveFileSystem = False\<rparr>)
             [AddTab \<lparr>tab_id = 1, input = TabInputText (fileUri ''/x.ts'')\<rparr>])
          \<lparr>tab_id = 1, input = TabInputText (fileUri ''/x.ts'')\<rparr>)
     = [fileUri ''/x.ts'']
   \<and> TabResourceTracker_has
         (TabResourceTracker_run
            (TabResourceTracker_new examplePathNormalizer \<lparr>onCaseInsensitiveFileSystem = False\<rparr>)
            [AddTab \<lparr>tab_id = 1, input = TabInputText (fileUri ''/x.ts'')\<rparr>])
         (fileUri ''/x.ts'')
   \<and> \<not> TabResourceTracker_has
         (fst (TabResourceTracker_delete
            (TabResourceTracker_run
               (TabResourceTracker_new examplePathNormalizer \<lparr>onCaseInsensitiveFileSystem = False\<rparr>)
               [AddTab \<lparr>tab_id = 1, input = TabInputText (fileUri ''/x.ts'')\<rparr>])
            \<lparr>tab_id = 1, input = TabInputText (fileUri ''/x.ts'')\<rparr>))
         (fileUri ''/x.ts'')"
proof -
  let ?t = "TabResourceTracker_run
             (TabResourceTracker_new examplePathNormalizer \<lparr>onCaseInsensitiveFileSystem = False\<rparr>)
             [AddTab \<lparr>tab_id = 1, input = TabInputText (fileUri ''/x.ts'')\<rparr>]"
  let ?tab1 = "\<lparr>tab_id = 1, input = TabInputText (fileUri ''/x.ts'')\<rparr>"
  let ?tab2 = "\<lparr>tab_id = 2, input = TabInputTextDiff (fileUri ''/x.ts'') (fileUri ''/y.ts'')\<rparr>"
  have added: "snd (TabResourceTracker_add ?t ?tab2) = [fileUri ''/y.ts'']"
    by (simp add: tracker_defs rm_defs key_defs fixture_defs)
  have closed: "snd (TabResourceTracker_delete ?t ?tab1) = [fileUri ''/x.ts'']"
    by (simp add: tracker_defs rm_defs key_defs fixture_defs)
  have res: "resolvable (tabResources ?t) (fileUri ''/y.ts'')"
    by (simp add: resolvable_def tracker_defs rm_defs key_defs fixture_defs)
  note T = tab_tracker_nonempty_tab_sets [OF refl, of examplePathNormalizer
      "\<lparr>onCaseInsensitiveFileSystem = False\<rparr>"
      "[AddTab \<lparr>tab_id = 1, input = TabInputText (fileUri ''/x.ts'')\<rparr>]"]
  from T have "\<forall>u \<in> set (snd (TabResourceTracker_add ?t ?tab2)).
             \<not> TabResourceTracker_has ?t u
             \<and> (resolvable (tabResources ?t) u
                  \<longrightarrow> TabResourceTracker_has (fst (TabResourceTracker_add ?t ?tab2)) u)"
    by blast
  with res have a: "\<not> TabResourceTracker_has ?t (fileUri ''/y.ts'')
      \<and> TabResourceTracker_has (fst (TabResourceTracker_add ?t ?tab2)) (fileUri ''/y.ts'')"
    unfolding added by simp
  from T have "\<forall>u \<in> set (snd (TabResourceTracker_delete ?t ?tab1)).
             TabResourceTracker_has ?t u
             \<and> \<not> TabResourceTracker_has (fst (TabResourceTracker_delete ?t ?tab1)) u"
    by blast
  then have d: "TabResourceTracker_has ?t (fileUri ''/x.ts'')
      \<and> \<not> TabResourceTracker_has (fst (TabResourceTracker_delete ?t ?tab1)) (fileUri ''/x.ts'')"
    unfolding closed by simp
  from added closed a d show ?thesis by (intro conjI) blast+
qed

section \<open>Properties of the orchestrator\<close>

text \<open>
  C7. \<open>shouldValidate\<close> is false when project diagnostics are disabled and the buffer's
  resource has no tab; otherwise it is the flag of the buffer's kind, \<open>validateJavaScript\<close>
  for the two JavaScript language ids and \<open>validateTypeScript\<close> for everything else.
\<close>

theorem shouldValidate_gating:
  "(\<not> enableProjectDiagnostics (sync_client s)
      \<and> \<not> TabResourceTracker_has (tabResourceTracker s) (buffer_resource b)
      \<longrightarrow> shouldValidate s b = False)
   \<and> (enableProjectDiagnostics (sync_client s)
      \<or> TabResourceTracker_has (tabResourceTracker s) (buffer_resource b)
      \<longrightarrow> shouldValidate s b
            = (case kind b of JavaScript \<Rightarrow> validateJavaScript s
                            | TypeScript \<Rightarrow> validateTypeScript s))
   \<and> (kind b = JavaScript
        \<longleftrightarrow> languageId (document b) = ''javascript''
            \<or> languageId (document b) = ''javascriptreact'')"
  by (auto simp: shouldValidate_def kind_def languageModeIds_javascript_def
      languageModeIds_javascriptreact_def)

lemmas example_tracker_defs = TabResourceTracker_new_def TabResourceTracker_add_def add_step_def
  TabResourceTracker_has_def Set_add_def

theorem shouldValidate_gating_witness:
  "\<not> shouldValidate
       \<lparr>sync_client = exampleClient (5, 0, 0) False, validateJavaScript = True,
        validateTypeScript = True,
        pendingDiagnostics = ResourceMap_new examplePathNormalizer \<lparr>onCaseInsensitiveFileSystem = False\<rparr>,
        diagnosticDelayer = \<lparr>defaultDelay = 300, scheduled = None\<rparr>,
        tabResourceTracker = TabResourceTracker_new examplePathNormalizer \<lparr>onCaseInsensitiveFileSystem = False\<rparr>\<rparr>
       (SyncedBuffer_new (exampleDocument ''/x.ts'' ''typescript'' 10) ''/x.ts'')
   \<and> shouldValidate
       \<lparr>sync_client = exampleClient (5, 0, 0) False, validateJavaScript = False,
        validateTypeScript = True,
        pendingDiagnostics = ResourceMap_new examplePathNormalizer \<lparr>onCaseInsensitiveFileSystem = False\<rparr>,
        diagnosticDelayer = \<lparr>defaultDelay = 300, scheduled = None\<rparr>,
        tabResourceTracker =
          fst (TabResourceTracker_add
                 (TabResourceTracker_new examplePathNormalizer \<lparr>onCaseInsensitiveFileSystem = False\<rparr>)
                 \<lparr>tab_id = 1, input = TabInputText (fileUri ''/x.ts'')\<rparr>)\<rparr>
       (SyncedBuffer_new (exampleDocument ''/x.ts'' ''typescript'' 10) ''/x.ts'')"
proof -
  let ?t0 = "TabResourceTracker_new examplePathNormalizer \<lparr>onCaseInsensitiveFileSystem = False\<rparr>"
  let ?t1 = "fst (TabResourceTracker_add ?t0 \<lparr>tab_id = 1, input = TabInputText (fileUri ''/x.ts'')\<rparr>)"
  let ?b = "SyncedBuffer_new (exampleDocument ''/x.ts'' ''typescript'' 10) ''/x.ts''"
  let ?s = "\<lambda>js t. \<lparr>sync_client = exampleClient (5, 0, 0) False, validateJavaScript = js,
        validateTypeScript = True,
        pendingDiagnostics = ResourceMap_new examplePathNormalizer \<lparr>onCaseInsensitiveFileSystem = False\<rparr>,
        diagnosticDelayer = \<lparr>defaultDelay = 300, scheduled = None\<rparr>,
        tabResourceTracker = t\<rparr>"
  have r: "buffer_resource ?b = fileUri ''/x.ts''"
    by (simp add: buffer_resource_def SyncedBuffer_new_def exampleDocument_def)
  have hidden: "\<not> TabResourceTracker_has ?t0 (fileUri ''/x.ts'')"
    by (simp add: example_tracker_defs rm_defs key_defs fixture_defs)
  have shown: "TabResourceTracker_has ?t1 (fileUri ''/x.ts'')"
    by (simp add: example_tracker_defs rm_defs key_defs fixture_defs)
  have off: "\<not> enableProjectDiagnostics (exampleClient (5, 0, 0) False)"
    by (simp add: exampleClient_def)
  have ts: "kind ?b = TypeScript"
    by (simp add: kind_def SyncedBuffer_new_def exampleDocument_def
        languageModeIds_javascript_def languageModeIds_javascriptreact_def)
  from shouldValidate_gating [of "?s True ?t0" ?b] hidden off r
  have "\<not> shouldValidate (?s True ?t0) ?b" by simp
  moreover from shouldValidate_gating [of "?s False ?t1" ?b] shown r ts
  have "shouldValidate (?s False ?t1) ?b" by simp
  ultimately show ?thesis by simp
qed

subsection \<open>The delay of a diagnostics request\<close>

lemma ceiling_div_20: "nat \<lceil>real n / 20\<rceil> = (n + 19) div 20"
proof -
  have "\<lceil>real n / 20\<rceil> = \<lceil>of_int (int n) / (of_int 20 :: real)\<rceil>" by simp
  also have "\<dots> = - (- int n div 20)" by (rule ceiling_divide_eq_div)
  also have "\<dots> = (int n + 19) div 20" by linarith
  finally have "nat \<lceil>real n / 20\<rceil> = nat ((int n + 19) div 20)" by simp
  also have "\<dots> = (n + 19) div 20" by linarith
  finally show ?thesis .
qed

lemma diagnosticDelay_eq:
  "diagnosticDelay n = (if n \<le> 6000 then 300 else if 16000 \<le> n then 800 else (n + 19) div 20)"
proof -
  define q where "q = (n + 19) div 20"
  have q1: "q \<le> 300" if "n \<le> 6000" using that unfolding q_def by linarith
  have q2: "800 \<le> q" if "16000 \<le> n" using that unfolding q_def by linarith
  have q3: "300 < q" if "\<not> n \<le> 6000" using that unfolding q_def by linarith
  have q4: "q \<le> 800" if "\<not> 16000 \<le> n" using that unfolding q_def by linarith
  have "min (max q 300) 800 = (if n \<le> 6000 then 300 else if 16000 \<le> n then 800 else q)"
    using q1 q2 q3 q4 by (cases "n \<le> 6000"; cases "16000 \<le> n") (simp_all add: min_def max_def)
  then show ?thesis by (simp only: diagnosticDelay_def ceiling_div_20 q_def)
qed

lemma diagnosticDelay_bounds: "300 \<le> diagnosticDelay n \<and> diagnosticDelay n \<le> 800"
  unfolding diagnosticDelay_def by linarith

text \<open>
  C8. \<open>requestDiagnostic\<close> returns false and changes nothing for a buffer that is not to
  be validated. Otherwise it returns true, sets the buffer's resource to the current time
  in the pending diagnostics, and triggers the delayer with the ceiling of a twentieth of
  the line count, clamped to 300 and 800 milliseconds.
\<close>

theorem requestDiagnostic_schedules:
  "(\<not> shouldValidate s b \<longrightarrow> requestDiagnostic s now b = (False, s))
   \<and> (shouldValidate s b \<longrightarrow>
        fst (requestDiagnostic s now b) = True
        \<and> pendingDiagnostics (snd (requestDiagnostic s now b))
            = ResourceMap_set (pendingDiagnostics s) (buffer_resource b) now
        \<and> (\<forall>k. toKey (pendingDiagnostics s) (buffer_resource b) = Some k \<and> k \<noteq> [] \<longrightarrow>
              ResourceMap_get (pendingDiagnostics (snd (requestDiagnostic s now b)))
                (buffer_resource b) = Some now)
        \<and> scheduled (diagnosticDelayer (snd (requestDiagnostic s now b)))
            = Some (min (max (nat \<lceil>real (lineCount (document b)) / 20\<rceil>) 300) 800))
   \<and> 300 \<le> diagnosticDelay (lineCount (document b))
   \<and> diagnosticDelay (lineCount (document b)) \<le> 800
   \<and> diagnosticDelay (lineCount (document b))
       = (if lineCount (document b) \<le> 6000 then 300
          else if 16000 \<le> lineCount (document b) then 800
          else (lineCount (document b) + 19) div 20)"
proof -
  have skip: "requestDiagnostic s now b = (False, s)" if "\<not> shouldValidate s b"
    using that by (simp add: requestDiagnostic_def)
  have run: "requestDiagnostic s now b
               = (True, s\<lparr>pendingDiagnostics :=
                             ResourceMap_set (pendingDiagnostics s) (buffer_resource b) now,
                           diagnosticDelayer :=
                             Delayer_trigger (diagnosticDelayer s)
                               (diagnosticDelay (lineCount (document b)))\<rparr>)"
    if "shouldValidate s b"
    using that by (simp add: requestDiagnostic_def triggerDiagnostics_def buffer_lineCount_def Let_def)
  have stored: "ResourceMap_get (ResourceMap_set (pendingDiagnostics s) (buffer_resource b) now)
                  (buffer_resource b) = Some now"
    if "toKey (pendingDiagnostics s) (buffer_resource b) = Some k" "k \<noteq> []" for k
    using that by (rule get_set_same)
  from skip run stored diagnosticDelay_bounds [of "lineCount (document b)"]
    diagnosticDelay_eq [of "lineCount (document b)"]
  show ?thesis
    by (auto simp: Delayer_trigger_def diagnosticDelay_def)
qed

theorem requestDiagnostic_schedules_witness:
  "shouldValidate
       \<lparr>sync_client = exampleClient (5, 0, 0) True, validateJavaScript = True,
        validateTypeScript = True,
        pendingDiagnostics = ResourceMap_new examplePathNormalizer \<lparr>onCaseInsensitiveFileSystem = False\<rparr>,
        diagnosticDelayer = \<lparr>defaultDelay = 300, scheduled = None\<rparr>,
        tabResourceTracker = TabResourceTracker_new examplePathNormalizer \<lparr>onCaseInsensitiveFileSystem = False\<rparr>\<rparr>
       (SyncedBuffer_new (exampleDocument ''/x.ts'' ''typescript'' 10000) ''/x.ts'')
   \<and> fst (requestDiagnostic
       \<lparr>sync_client = exampleClient (5, 0, 0) True, validateJavaScript = True,
        validateTypeScript = True,
        pendingDiagnostics = ResourceMap_new examplePathNormalizer \<lparr>onCaseInsensitiveFileSystem = False\<rparr>,
        diagnosticDelayer = \<lparr>defaultDelay = 300, scheduled = None\<rparr>,
        tabResourceTracker = TabResourceTracker_new examplePathNormalizer \<lparr>onCaseInsensitiveFileSystem = False\<rparr>\<rparr>
       1234
       (SyncedBuffer_new (exampleDocument ''/x.ts'' ''typescript'' 10000) ''/x.ts''))
   \<and> ResourceMap_get (pendingDiagnostics (snd (requestDiagnostic
       \<lparr>sync_client = exampleClient (5, 0, 0) True, validateJavaScript = True,
        validateTypeScript = True,
        pendingDiagnostics = ResourceMap_new examplePathNormalizer \<lparr>onCaseInsensitiveFileSystem = False\<rparr>,
        diagnosticDelayer = \<lparr>defaultDelay = 300, scheduled = None\<rparr>,
        tabResourceTracker = TabResourceTracker_new examplePathNormalizer \<lparr>onCaseInsensitiveFileSystem = False\<rparr>\<rparr>
       1234
       (SyncedBuffer_new (exampleDocument ''/x.ts'' ''typescript'' 10000) ''/x.ts''))))
       (fileUri ''/x.ts'') = Some 1234
   \<and> scheduled (diagnosticDelayer (snd (requestDiagnostic
       \<lparr>sync_client = exampleClient (5, 0, 0) True, validateJavaScript = True,
        validateTypeScript = True,
        pendingDiagnostics = ResourceMap_new examplePathNormalizer \<lparr>onCaseInsensitiveFileSystem = False\<rparr>,
        diagnosticDelayer = \<lparr>defaultDelay = 300, scheduled = None\<rparr>,
        tabResourceTracker = TabResourceTracker_new examplePathNormalizer \<lparr>onCaseInsensitiveFileSystem = False\<rparr>\<rparr>
       1234
       (SyncedBuffer_new (exampleDocument ''/x.ts'' ''typescript'' 10000) ''/x.ts'')))) = Some 500"
proof -
  let ?s = "\<lparr>sync_client = exampleClient (5, 0, 0) True, validateJavaScript = True,
        validateTypeScript = True,
        pendingDiagnostics = ResourceMap_new examplePathNormalizer \<lparr>onCaseInsensitiveFileSystem = False\<rparr>,
        diagnosticDelayer = \<lparr>defaultDelay = 300, scheduled = None\<rparr>,
        tabResourceTracker = TabResourceTracker_new examplePathNormalizer \<lparr>onCaseInsensitiveFileSystem = False\<rparr>\<rparr>"
  let ?b = "SyncedBuffer_new (exampleDocument ''/x.ts'' ''typescript'' 10000) ''/x.ts''"
  have v: "shouldValidate ?s ?b"
    by (simp add: shouldValidate_def kind_def exampleClient_def SyncedBuffer_new_def
        exampleDocument_def languageModeIds_javascript_def languageModeIds_javascriptreact_def)
  have r: "buffer_resource ?b = fileUri ''/x.ts''" "lineCount (document ?b) = 10000"
    by (simp_all add: buffer_resource_def SyncedBuffer_new_def exampleDocument_def)
  have k: "toKey (pendingDiagnostics ?s) (fileUri ''/x.ts'') = Some ''/x.ts''"
    by (simp add: ResourceMap_new_def key_defs fixture_defs)
  have d: "min (max (nat \<lceil>real 10000 / 20\<rceil>) 300) 800 = (500::nat)"
    by simp
  note T = requestDiagnostic_schedules [of ?s ?b 1234]
  from T v have "fst (requestDiagnostic ?s 1234 ?b)" by blast
  moreover from T v k have "ResourceMap_get (pendingDiagnostics (snd (requestDiagnostic ?s 1234 ?b)))
       (fileUri ''/x.ts'') = Some 1234"
    unfolding r by blast
  moreover from T v have "scheduled (diagnosticDelayer (snd (requestDiagnostic ?s 1234 ?b)))
       = Some (min (max (nat \<lceil>real 10000 / 20\<rceil>) 300) 800)"
    unfolding r by blast
  ultimately show ?thesis using v by (simp only: d simp_thms)
qed

end
